theory Spec2Isabelle
  imports Complex_Main
begin

section \<open>Python containers used by PhotoSort.py\<close>

text \<open>
  \<open>collections.OrderedDict\<close>: an association list in insertion order with pairwise
  distinct keys; the head is the oldest entry (what \<open>popitem(last=False)\<close> removes),
  the last element is the most recently used one.
\<close>

type_synonym ('k, 'v) ordered_dict = "('k \<times> 'v) list"

datatype py_error = KeyError | RuntimeError

definition od_keys :: "('k, 'v) ordered_dict \<Rightarrow> 'k list" where
  "od_keys d = map fst d"

definition od_contains :: "'k \<Rightarrow> ('k, 'v) ordered_dict \<Rightarrow> bool" where
  "od_contains k d = (k \<in> set (od_keys d))"

text \<open>\<open>d[k] = v\<close>: an existing key keeps its position, a new key goes to the end.\<close>

definition od_setitem :: "'k \<Rightarrow> 'v \<Rightarrow> ('k, 'v) ordered_dict \<Rightarrow> ('k, 'v) ordered_dict" where
  "od_setitem k v d =
     (if od_contains k d then map (\<lambda>e. if fst e = k then (k, v) else e) d
      else d @ [(k, v)])"

text \<open>\<open>d.move_to_end(k)\<close>: raises KeyError when the key is absent.\<close>

definition od_move_to_end :: "'k \<Rightarrow> ('k, 'v) ordered_dict \<Rightarrow> py_error + ('k, 'v) ordered_dict" where
  "od_move_to_end k d =
     (case map_of d k of
        None \<Rightarrow> Inl KeyError
      | Some v \<Rightarrow> Inr (filter (\<lambda>e. fst e \<noteq> k) d @ [(k, v)]))"

text \<open>\<open>del d[k]\<close> for a key taken from \<open>d.keys()\<close>.\<close>

definition od_delitem :: "'k \<Rightarrow> ('k, 'v) ordered_dict \<Rightarrow> ('k, 'v) ordered_dict" where
  "od_delitem k d = filter (\<lambda>e. fst e \<noteq> k) d"

section \<open>ImageLoader: the bounded recency cache\<close>

text \<open>
  A \<open>QPixmap\<close> is known to the cache only through \<open>isNull()\<close>; \<open>content\<close> stands for
  the pixels. The argument of \<open>_add_to_cache\<close> may also be Python's \<open>None\<close>, hence
  \<open>pixmap option\<close> there.
\<close>

record pixmap =
  isNull :: bool
  content :: nat

text \<open>
  The fields of \<open>ImageLoader\<close> that the cache code reads or writes.
  \<open>current_image_index\<close> and \<open>image_files\<close> are looked up with \<open>hasattr\<close> by
  \<open>_remove_oldest_items_from_cache\<close>; \<open>None\<close> is the missing attribute.
  Times and memory percentages are Python floats, taken here as rationals.
\<close>

record image_loader =
  cache_limit :: int
  cache :: "(string, pixmap) ordered_dict"
  current_image_index :: "int option"
  image_files :: "string list option"
  last_cache_adjustment :: rat

text \<open>
  \<open>calculate_adaptive_cache_size\<close>: the only place that produces a value for
  \<open>cache_limit\<close> (in \<open>__init__\<close>).
\<close>

definition calculate_adaptive_cache_size :: "rat \<Rightarrow> int" where
  "calculate_adaptive_cache_size system_memory_gb =
     (if system_memory_gb \<ge> 45 then 120
      else if system_memory_gb \<ge> 30 then 80
      else if system_memory_gb \<ge> 22 then 60
      else if system_memory_gb \<ge> 14 then 40
      else if system_memory_gb \<ge> 7 then 20
      else 10)"

text \<open>\<open>ImageLoader.__init__\<close>: an empty \<open>OrderedDict\<close>, no index attributes.\<close>

definition ImageLoader_init :: "rat \<Rightarrow> rat \<Rightarrow> image_loader" where
  "ImageLoader_init system_memory_gb now =
     \<lparr>cache_limit = calculate_adaptive_cache_size system_memory_gb,
      cache = [],
      current_image_index = None,
      image_files = None,
      last_cache_adjustment = now\<rparr>"

text \<open>
  The loop of \<open>_add_to_cache\<close>:
  \<^verbatim>\<open>while len(self.cache) >= self.cache_limit:
      try: self.cache.popitem(last=False)
      except: break\<close>
  On the empty dictionary \<open>popitem\<close> raises and the loop is left.
\<close>

fun evict_while_full :: "int \<Rightarrow> ('k, 'v) ordered_dict \<Rightarrow> ('k, 'v) ordered_dict" where
  "evict_while_full limit [] = []"
| "evict_while_full limit (e # es) =
     (if int (length (e # es)) \<ge> limit then evict_while_full limit es else e # es)"

definition add_to_cache :: "image_loader \<Rightarrow> string \<Rightarrow> pixmap option \<Rightarrow> py_error + image_loader" where
  "add_to_cache self path pixmap =
     (case pixmap of
        None \<Rightarrow> Inr self
      | Some pm \<Rightarrow>
          if isNull pm then Inr self
          else
            (let c1 = evict_while_full (cache_limit self) (cache self);
                 c2 = od_setitem path pm c1
             in case od_move_to_end path c2 of
                  Inl e \<Rightarrow> Inl e
                | Inr c3 \<Rightarrow> Inr (self\<lparr>cache := c3\<rparr>)))"

text \<open>A sequence of calls of \<open>_add_to_cache\<close>; an exception would end it.\<close>

fun add_all_to_cache :: "image_loader \<Rightarrow> (string \<times> pixmap option) list \<Rightarrow> py_error + image_loader" where
  "add_all_to_cache self [] = Inr self"
| "add_all_to_cache self ((p, pm) # rest) =
     (case add_to_cache self p pm of
        Inl e \<Rightarrow> Inl e
      | Inr self' \<Rightarrow> add_all_to_cache self' rest)"


definition valid_pixmap :: "pixmap option \<Rightarrow> bool" where
  "valid_pixmap pm = (case pm of None \<Rightarrow> False | Some q \<Rightarrow> \<not> isNull q)"

subsection \<open>Pressure-triggered eviction\<close>

text \<open>
  The set \<open>preserved_paths\<close> built at the start of \<open>_remove_oldest_items_from_cache\<close>:
  the current image and its neighbours at offsets \<open>-3 .. 3\<close>, when the object has the
  attributes \<open>current_image_index\<close> and \<open>image_files\<close>.
\<close>

definition preserved_paths :: "image_loader \<Rightarrow> string list" where
  "preserved_paths self =
     (case current_image_index self of
        None \<Rightarrow> []
      | Some ci \<Rightarrow>
          if ci \<ge> 0 then
            (case image_files self of
               None \<Rightarrow> []
             | Some files \<Rightarrow>
                 if 0 \<le> ci \<and> ci < int (length files) then
                   files ! nat ci #
                   [files ! nat (ci + off). off \<leftarrow> [-3, -2, -1, 1, 2, 3],
                      0 \<le> ci + off \<and> ci + off < int (length files)]
                 else [])
          else [])"

text \<open>
  The selection loop over \<open>list(self.cache.keys())\<close>, oldest key first; the last
  argument is the counter \<open>items_removed\<close>, which grows with every key appended to
  \<open>items_to_remove\<close>.
\<close>

fun collect_items_to_remove :: "int \<Rightarrow> string list \<Rightarrow> string list \<Rightarrow> int \<Rightarrow> string list" where
  "collect_items_to_remove count preserved [] items_removed = []"
| "collect_items_to_remove count preserved (key # keys) items_removed =
     (if items_removed \<ge> count then []
      else if key \<notin> set preserved
        then key # collect_items_to_remove count preserved keys (items_removed + 1)
        else collect_items_to_remove count preserved keys items_removed)"

text \<open>Returns the number of removed items and the updated loader.\<close>

definition remove_oldest_items_from_cache :: "image_loader \<Rightarrow> int \<Rightarrow> int \<times> image_loader" where
  "remove_oldest_items_from_cache self count =
     (if cache self = [] \<or> count \<le> 0 then (0, self)
      else
        (let items_to_remove =
               collect_items_to_remove count (preserved_paths self) (od_keys (cache self)) 0
         in (int (length items_to_remove),
             self\<lparr>cache := foldl (\<lambda>d key. od_delitem key d) (cache self) items_to_remove\<rparr>)))"

text \<open>
  \<open>int(len(self.cache) * f)\<close> for the factors \<open>0.5\<close>, \<open>0.3\<close>, \<open>0.15\<close>: truncation of
  a non-negative product, computed here on the exact decimal fraction. The
  double-precision product truncates to the same integer for every length below two
  million, far above any \<open>cache_limit\<close>.
\<close>

definition scaled_len :: "('k, 'v) ordered_dict \<Rightarrow> rat \<Rightarrow> int" where
  "scaled_len d f = \<lfloor>of_nat (length d) * f\<rfloor>"

text \<open>
  \<open>check_cache_health\<close>; \<open>memory = None\<close> is the case where \<open>psutil\<close> raises, which
  the bare \<open>except\<close> swallows.
\<close>

definition check_cache_health :: "image_loader \<Rightarrow> rat option \<Rightarrow> rat \<Rightarrow> image_loader" where
  "check_cache_health self memory current_time =
     (case memory of
        None \<Rightarrow> self
      | Some memory_percent \<Rightarrow>
          if memory_percent > 95 \<and> current_time - last_cache_adjustment self > 5 then
            (let reduction = max 1 (scaled_len (cache self) (5 / 10))
             in (snd (remove_oldest_items_from_cache self reduction))
                  \<lparr>last_cache_adjustment := current_time\<rparr>)
          else if memory_percent > 90 \<and> current_time - last_cache_adjustment self > 10 then
            (let reduction = max 1 (scaled_len (cache self) (3 / 10))
             in (snd (remove_oldest_items_from_cache self reduction))
                  \<lparr>last_cache_adjustment := current_time\<rparr>)
          else if memory_percent > 85 \<and> current_time - last_cache_adjustment self > 30 then
            (let reduction = max 1 (scaled_len (cache self) (15 / 100))
             in (snd (remove_oldest_items_from_cache self reduction))
                  \<lparr>last_cache_adjustment := current_time\<rparr>)
          else self)"

section \<open>PriorityThreadPoolExecutor\<close>

text \<open>
  A task is the tuple \<open>(fn, args, kwargs)\<close>. The dictionary \<open>task_queues\<close> has exactly
  the keys \<open>high\<close>, \<open>medium\<close>, \<open>low\<close>, one FIFO queue each. \<open>submitted\<close> lists
  what was handed to \<open>ThreadPoolExecutor.submit\<close>, in order, each with the number of the
  \<open>Future\<close> made for it; \<open>executor_shutdown\<close> is the base class's own flag, after
  which its \<open>submit\<close> raises RuntimeError.
\<close>

type_synonym task = "string \<times> string list \<times> (string \<times> string) list"

record priority_thread_pool =
  high_queue :: "task list"
  medium_queue :: "task list"
  low_queue :: "task list"
  shutdown_flag :: bool
  submitted :: "(nat \<times> task) list"
  next_future :: nat
  executor_shutdown :: bool

definition PriorityThreadPoolExecutor_init :: "priority_thread_pool" where
  "PriorityThreadPoolExecutor_init =
     \<lparr>high_queue = [], medium_queue = [], low_queue = [], shutdown_flag = False,
      submitted = [], next_future = 0, executor_shutdown = False\<rparr>"

definition executor_submit :: "priority_thread_pool \<Rightarrow> task \<Rightarrow> py_error + (nat \<times> priority_thread_pool)" where
  "executor_submit pool t =
     (if executor_shutdown pool then Inl RuntimeError
      else Inr (next_future pool,
                pool\<lparr>submitted := submitted pool @ [(next_future pool, t)],
                     next_future := Suc (next_future pool)\<rparr>))"

text \<open>
  One pass through the body of the \<open>while\<close> loop of \<open>_process_priority_queues\<close>:
  the high queue first, then medium, then low, otherwise a short sleep. The result
  carries the future created by \<open>super().submit\<close>, which the code drops.
\<close>

definition process_iteration :: "priority_thread_pool \<Rightarrow> py_error + (nat option \<times> priority_thread_pool)" where
  "process_iteration pool =
     (case high_queue pool of
        t # rest \<Rightarrow>
          (case executor_submit (pool\<lparr>high_queue := rest\<rparr>) t of
             Inl e \<Rightarrow> Inl e | Inr (f, pool') \<Rightarrow> Inr (Some f, pool'))
      | [] \<Rightarrow>
          (case medium_queue pool of
             t # rest \<Rightarrow>
               (case executor_submit (pool\<lparr>medium_queue := rest\<rparr>) t of
                  Inl e \<Rightarrow> Inl e | Inr (f, pool') \<Rightarrow> Inr (Some f, pool'))
           | [] \<Rightarrow>
               (case low_queue pool of
                  t # rest \<Rightarrow>
                    (case executor_submit (pool\<lparr>low_queue := rest\<rparr>) t of
                       Inl e \<Rightarrow> Inl e | Inr (f, pool') \<Rightarrow> Inr (Some f, pool'))
                | [] \<Rightarrow> Inr (None, pool))))"

text \<open>What \<open>get_nowait()\<close> of a pass does to the queues, whatever follows it.\<close>

definition take_next :: "priority_thread_pool \<Rightarrow> priority_thread_pool" where
  "take_next pool =
     (case high_queue pool of
        t # rest \<Rightarrow> pool\<lparr>high_queue := rest\<rparr>
      | [] \<Rightarrow>
          (case medium_queue pool of
             t # rest \<Rightarrow> pool\<lparr>medium_queue := rest\<rparr>
           | [] \<Rightarrow>
               (case low_queue pool of
                  t # rest \<Rightarrow> pool\<lparr>low_queue := rest\<rparr>
                | [] \<Rightarrow> pool)))"

text \<open>
  The loop itself, observed for \<open>n\<close> passes: it runs until \<open>shutdown_flag\<close> is set
  and only an uncaught exception ends it earlier.
\<close>

fun process_priority_queues :: "nat \<Rightarrow> priority_thread_pool \<Rightarrow> py_error + priority_thread_pool" where
  "process_priority_queues 0 pool = Inr pool"
| "process_priority_queues (Suc n) pool =
     (if shutdown_flag pool then Inr pool
      else case process_iteration pool of
             Inl e \<Rightarrow> Inl e
           | Inr (_, pool') \<Rightarrow> process_priority_queues n pool')"

definition submit_with_priority :: "priority_thread_pool \<Rightarrow> string \<Rightarrow> task \<Rightarrow> priority_thread_pool" where
  "submit_with_priority pool priority t =
     (let priority = (if priority \<in> {''high'', ''medium'', ''low''} then priority else ''low'')
      in if priority = ''high'' then pool\<lparr>high_queue := high_queue pool @ [t]\<rparr>
         else if priority = ''medium'' then pool\<lparr>medium_queue := medium_queue pool @ [t]\<rparr>
         else pool\<lparr>low_queue := low_queue pool @ [t]\<rparr>)"

text \<open>
  \<open>shutdown(wait, cancel_futures)\<close>: the stop flag, then the base class's shutdown.
  With \<open>cancel_futures=True\<close> the base class also cancels the futures still waiting
  in the executor; which of the submitted futures have started is decided by the
  operating system's scheduling and is not part of this state, so that effect is not
  represented here.
\<close>

definition pool_shutdown :: "priority_thread_pool \<Rightarrow> priority_thread_pool" where
  "pool_shutdown pool = pool\<lparr>shutdown_flag := True, executor_shutdown := True\<rparr>"

section \<open>The RAW decoder processes\<close>

text \<open>
  The dictionary a worker puts on the output queue; an absent key is \<open>None\<close>.
  Pixel data are bytes, \<open>shape\<close> is the tuple of the array's dimensions.
\<close>

record decode_result =
  task_id :: int
  file_path :: string
  success :: bool
  error :: "string option"
  width :: "nat option"
  height :: "nat option"
  data :: "nat list option"
  shape :: "nat list option"
  dtype :: "string option"

text \<open>
  What \<open>rawpy.imread(file_path)\<close> followed by \<open>raw.postprocess(...)\<close> does is outside
  the program: it raises an exception \<open>e\<close> (kept as \<open>str(e)\<close>) or yields an array.
\<close>

record ndarray =
  nd_dtype :: string
  nd_shape :: "nat list"
  nd_bytes :: "nat list"

datatype rawpy_outcome = RawpyRaises string | Postprocessed ndarray

text \<open>Python's \<open>str\<close> of a natural number and of a tuple of them, for the f-string.\<close>

fun str_nat :: "nat \<Rightarrow> string" where
  "str_nat n =
     (if n < 10 then [char_of (48 + n)]
      else str_nat (n div 10) @ [char_of (48 + n mod 10)])"

fun join_comma :: "string list \<Rightarrow> string" where
  "join_comma [] = []"
| "join_comma [x] = x"
| "join_comma (x # y # zs) = x @ '', '' @ join_comma (y # zs)"

definition str_tuple :: "nat list \<Rightarrow> string" where
  "str_tuple xs =
     (case xs of
        [x] \<Rightarrow> ''('' @ str_nat x @ '',)''
      | _ \<Rightarrow> ''('' @ join_comma (map str_nat xs) @ '')'')"

text \<open>
  The inner \<open>try\<close> of \<open>decode_raw_in_process\<close> for one request: the dictionary that
  is put on the output queue. \<open>rgb.shape[1]\<close> on an array of fewer than two dimensions
  raises IndexError inside the same \<open>try\<close>.
\<close>

definition decode_request :: "string \<Rightarrow> int \<Rightarrow> rawpy_outcome \<Rightarrow> decode_result" where
  "decode_request path tid outcome =
     (case outcome of
        RawpyRaises msg \<Rightarrow>
          \<lparr>task_id = tid, file_path = path, success = False, error = Some msg,
           width = None, height = None, data = None, shape = None, dtype = None\<rparr>
      | Postprocessed rgb \<Rightarrow>
          if length (nd_shape rgb) < 2 then
            \<lparr>task_id = tid, file_path = path, success = False,
             error = Some ''tuple index out of range'',
             width = None, height = None, data = None, shape = None, dtype = None\<rparr>
          else if nd_dtype rgb = ''uint8'' \<and> length (nd_shape rgb) = 3 then
            \<lparr>task_id = tid, file_path = path, success = True, error = None,
             width = Some (nd_shape rgb ! 1), height = Some (nd_shape rgb ! 0),
             data = Some (nd_bytes rgb), shape = Some (nd_shape rgb),
             dtype = Some (nd_dtype rgb)\<rparr>
          else
            \<lparr>task_id = tid, file_path = path, success = False,
             error = Some (''Unexpected data format: '' @ nd_dtype rgb @ '', shape=''
                           @ str_tuple (nd_shape rgb)),
             width = Some (nd_shape rgb ! 1), height = Some (nd_shape rgb ! 0),
             data = None, shape = None, dtype = None\<rparr>)"

text \<open>
  One pass of the worker's \<open>while True\<close> loop, once \<open>rawpy\<close> and \<open>numpy\<close> have
  been imported. The input queue holds requests
  \<open>(file_path, task_id)\<close> and the poison value \<open>None\<close>. \<open>memory = None\<close> is the case
  where the \<open>psutil\<close> call raises and is ignored. Above 95 percent the request is put
  back and nothing is decoded in this pass.
\<close>

datatype worker_status = Exited | Waiting | Deferred | Answered

definition worker_iteration ::
  "(string \<times> int) option list \<Rightarrow> decode_result list \<Rightarrow> rat option \<Rightarrow> (string \<Rightarrow> rawpy_outcome)
     \<Rightarrow> worker_status \<times> (string \<times> int) option list \<times> decode_result list" where
  "worker_iteration inq outq memory rawpy =
     (case inq of
        [] \<Rightarrow> (Waiting, inq, outq)
      | None # rest \<Rightarrow> (Exited, rest, outq)
      | Some (path, tid) # rest \<Rightarrow>
          if (case memory of None \<Rightarrow> False | Some memory_percent \<Rightarrow> memory_percent > 95)
          then (Deferred, rest @ [Some (path, tid)], outq)
          else (Answered, rest, outq @ [decode_request path tid (rawpy path)]))"

section \<open>RawDecoderPool\<close>

text \<open>
  A callback is known by a name and by whether calling it raises. A worker process is
  known by its pid and by whether it has exited when \<open>join(0.5)\<close> returns.
\<close>

record callback =
  cb_name :: nat
  cb_raises :: bool

record process =
  pid :: nat
  exits_in_time :: bool

datatype process_event = Join nat | Terminate nat

record raw_decoder_pool =
  input_queue :: "(string \<times> int) option list"
  output_queue :: "decode_result list"
  processes :: "process list"
  next_task_id :: int
  tasks :: "(int, callback) ordered_dict"
  pool_running :: bool

definition RawDecoderPool_init :: "process list \<Rightarrow> raw_decoder_pool" where
  "RawDecoderPool_init spawned =
     \<lparr>input_queue = [], output_queue = [], processes = spawned,
      next_task_id = 0, tasks = [], pool_running = True\<rparr>"

definition decode_raw :: "raw_decoder_pool \<Rightarrow> string \<Rightarrow> callback \<Rightarrow> int option \<times> raw_decoder_pool" where
  "decode_raw pool path cb =
     (if \<not> pool_running pool then (None, pool)
      else
        (let tid = next_task_id pool
         in (Some tid,
             pool\<lparr>next_task_id := tid + 1,
                  tasks := od_setitem tid cb (tasks pool),
                  input_queue := input_queue pool @ [Some (path, tid)]\<rparr>)))"

text \<open>
  The \<open>while processed < max_results\<close> loop of \<open>process_results\<close> over the results
  waiting in the output queue. It returns the counter, the pending map, the rest of
  the queue and the callback invocations made, in order. A callback that raises ends
  the loop through \<open>except Exception\<close> before the counter is incremented.
\<close>

fun drain_results ::
  "int \<Rightarrow> int \<Rightarrow> (int, callback) ordered_dict \<Rightarrow> decode_result list
     \<Rightarrow> int \<times> (int, callback) ordered_dict \<times> decode_result list \<times> (callback \<times> decode_result) list" where
  "drain_results max_results processed pending [] = (processed, pending, [], [])"
| "drain_results max_results processed pending (result # rest) =
     (if processed < max_results then
        (case map_of pending (task_id result) of
           Some cb \<Rightarrow>
             if cb_raises cb
             then (processed, od_delitem (task_id result) pending, rest, [(cb, result)])
             else
               (case drain_results max_results (processed + 1)
                       (od_delitem (task_id result) pending) rest of
                  (n, pending', rest', calls) \<Rightarrow> (n, pending', rest', (cb, result) # calls))
         | None \<Rightarrow> drain_results max_results (processed + 1) pending rest)
      else (processed, pending, result # rest, []))"

definition process_results ::
  "raw_decoder_pool \<Rightarrow> int \<Rightarrow> int \<times> (callback \<times> decode_result) list \<times> raw_decoder_pool" where
  "process_results pool max_results =
     (if \<not> pool_running pool then (0, [], pool)
      else
        (case drain_results max_results 0 (tasks pool) (output_queue pool) of
           (n, pending', rest', calls) \<Rightarrow>
             (n, calls, pool\<lparr>tasks := pending', output_queue := rest'\<rparr>)))"

text \<open>
  \<open>RawDecoderPool.shutdown\<close>: the joins and forced terminations it performs are
  returned with the new state.
\<close>

definition stop_process :: "process \<Rightarrow> process_event list" where
  "stop_process p = (if exits_in_time p then [Join (pid p)] else [Join (pid p), Terminate (pid p)])"

definition decoder_shutdown :: "raw_decoder_pool \<Rightarrow> process_event list \<times> raw_decoder_pool" where
  "decoder_shutdown pool =
     (if \<not> pool_running pool then ([], pool)
      else
        (concat (map stop_process (processes pool)),
         pool\<lparr>pool_running := False,
              input_queue := input_queue pool @ replicate (length (processes pool)) None,
              processes := [],
              tasks := []\<rparr>))"

text \<open>
  The part of \<open>ResourceManager.cancel_all_tasks\<close> that works on the decoder pool:
  both queues are emptied and the pending map is cleared.
\<close>

definition clear_decoder_pool :: "raw_decoder_pool \<Rightarrow> raw_decoder_pool" where
  "clear_decoder_pool pool = pool\<lparr>input_queue := [], output_queue := [], tasks := []\<rparr>"

text \<open>
  A history of the pool: submissions, polls, results arriving from workers (any
  result at any time), clearing by \<open>cancel_all_tasks\<close>, and shutdown. It yields what
  each \<open>decode_raw\<close> returned and every callback invocation, in order.
\<close>

datatype pool_op =
    DecodeRaw string callback
  | ProcessResults int
  | WorkerPuts decode_result
  | ClearPool
  | ShutdownPool

fun run_pool ::
  "raw_decoder_pool \<Rightarrow> pool_op list
     \<Rightarrow> int option list \<times> (callback \<times> decode_result) list \<times> raw_decoder_pool" where
  "run_pool pool [] = ([], [], pool)"
| "run_pool pool (DecodeRaw path cb # ops) =
     (case decode_raw pool path cb of
        (r, pool') \<Rightarrow>
          (case run_pool pool' ops of (rs, calls, pool'') \<Rightarrow> (r # rs, calls, pool'')))"
| "run_pool pool (ProcessResults m # ops) =
     (case process_results pool m of
        (_, calls, pool') \<Rightarrow>
          (case run_pool pool' ops of (rs, calls', pool'') \<Rightarrow> (rs, calls @ calls', pool'')))"
| "run_pool pool (WorkerPuts r # ops) =
     run_pool (pool\<lparr>output_queue := output_queue pool @ [r]\<rparr>) ops"
| "run_pool pool (ClearPool # ops) = run_pool (clear_decoder_pool pool) ops"
| "run_pool pool (ShutdownPool # ops) = run_pool (snd (decoder_shutdown pool)) ops"

text \<open>The task ids among the values returned by \<open>decode_raw\<close>.\<close>

definition returned_ids :: "int option list \<Rightarrow> int list" where
  "returned_ids rs = [tid. Some tid \<leftarrow> rs]"

section \<open>ResourceManager\<close>

text \<open>
  \<open>active_tasks\<close> is the set of futures returned by \<open>submit_imaging_task\<close> and not yet
  done; \<open>pending_tasks\<close> is the dictionary from a priority name to a list of
  cancellable tasks that \<open>cancel_low_priority_tasks\<close> reads. \<open>__init__\<close> sets it to
  \<open>{}\<close> and no other statement of the program stores into it.
\<close>

record resource_manager =
  imaging_thread_pool :: priority_thread_pool
  raw_decoder_pool :: raw_decoder_pool
  active_tasks :: "nat set"
  pending_tasks :: "(string, nat list) ordered_dict"
  rm_running :: bool

definition calculate_optimal_threads :: "rat \<Rightarrow> int \<Rightarrow> int" where
  "calculate_optimal_threads system_memory_gb available_cores =
     (if system_memory_gb \<ge> 24 \<and> available_cores \<ge> 8 then 4
      else if system_memory_gb \<ge> 12 \<and> available_cores \<ge> 6 then 3
      else 2)"

definition calculate_optimal_raw_processes :: "rat \<Rightarrow> int \<Rightarrow> int" where
  "calculate_optimal_raw_processes system_memory_gb available_cores =
     (if system_memory_gb \<ge> 12 then min 2 (max 1 (available_cores div 4)) else 1)"

text \<open>\<open>ResourceManager.__init__\<close>, given the worker processes that were spawned.\<close>

definition ResourceManager_init :: "process list \<Rightarrow> resource_manager" where
  "ResourceManager_init spawned =
     \<lparr>imaging_thread_pool = PriorityThreadPoolExecutor_init,
      raw_decoder_pool = RawDecoderPool_init spawned,
      active_tasks = {},
      pending_tasks = [],
      rm_running = True\<rparr>"

text \<open>
  \<open>cancel_low_priority_tasks\<close>: returns the tasks on which \<open>cancel()\<close> was called.
  It reads and writes \<open>pending_tasks\<close> only.
\<close>

definition cancel_low_priority_tasks :: "resource_manager \<Rightarrow> nat list \<times> resource_manager" where
  "cancel_low_priority_tasks rm =
     (let (c1, p1) =
            (case map_of (pending_tasks rm) ''low'' of
               Some ts \<Rightarrow> (ts, od_setitem ''low'' [] (pending_tasks rm))
             | None \<Rightarrow> ([], pending_tasks rm));
          (c2, p2) =
            (case map_of p1 ''medium'' of
               Some ms \<Rightarrow>
                 if length ms > 4 then
                   (let keep = length ms div 2
                    in (drop keep ms, od_setitem ''medium'' (take keep ms) p1))
                 else ([], p1)
             | None \<Rightarrow> ([], p1))
      in (c1 @ c2, rm\<lparr>pending_tasks := p2\<rparr>))"

text \<open>\<open>monitor_resources\<close>; \<open>memory = None\<close> when \<open>psutil\<close> raises.\<close>

definition monitor_resources :: "resource_manager \<Rightarrow> rat option \<Rightarrow> nat list \<times> resource_manager" where
  "monitor_resources rm memory =
     (if \<not> rm_running rm then ([], rm)
      else case memory of
             None \<Rightarrow> ([], rm)
           | Some memory_percent \<Rightarrow>
               if memory_percent > 95 then cancel_low_priority_tasks rm else ([], rm))"

text \<open>
  \<open>submit_imaging_task_with_priority\<close>: the pool is always a
  \<open>PriorityThreadPoolExecutor\<close>, so the \<open>isinstance\<close> branch is the one taken; the
  function has no \<open>return\<close> with a value.
\<close>

definition submit_imaging_task_with_priority ::
  "resource_manager \<Rightarrow> string \<Rightarrow> task \<Rightarrow> nat option \<times> resource_manager" where
  "submit_imaging_task_with_priority rm priority t =
     (if \<not> rm_running rm then (None, rm)
      else (None, rm\<lparr>imaging_thread_pool :=
                        submit_with_priority (imaging_thread_pool rm) priority t\<rparr>))"

definition submit_imaging_task ::
  "resource_manager \<Rightarrow> task \<Rightarrow> py_error + (nat option \<times> resource_manager)" where
  "submit_imaging_task rm t =
     (if \<not> rm_running rm then Inr (None, rm)
      else case executor_submit (imaging_thread_pool rm) t of
             Inl e \<Rightarrow> Inl e
           | Inr (future, pool') \<Rightarrow>
               Inr (Some future,
                    rm\<lparr>imaging_thread_pool := pool',
                       active_tasks := insert future (active_tasks rm)\<rparr>))"

text \<open>The done-callback registered by \<open>submit_imaging_task\<close>.\<close>

definition future_done :: "resource_manager \<Rightarrow> nat \<Rightarrow> resource_manager" where
  "future_done rm future = rm\<lparr>active_tasks := active_tasks rm - {future}\<rparr>"

definition submit_raw_decoding ::
  "resource_manager \<Rightarrow> string \<Rightarrow> callback \<Rightarrow> int option \<times> resource_manager" where
  "submit_raw_decoding rm path cb =
     (if \<not> rm_running rm then (None, rm)
      else case decode_raw (raw_decoder_pool rm) path cb of
             (r, pool') \<Rightarrow> (r, rm\<lparr>raw_decoder_pool := pool'\<rparr>))"

definition process_raw_results ::
  "resource_manager \<Rightarrow> int \<Rightarrow> int \<times> (callback \<times> decode_result) list \<times> resource_manager" where
  "process_raw_results rm max_results =
     (if \<not> rm_running rm then (0, [], rm)
      else case process_results (raw_decoder_pool rm) max_results of
             (n, calls, pool') \<Rightarrow> (n, calls, rm\<lparr>raw_decoder_pool := pool'\<rparr>))"

text \<open>
  \<open>cancel_all_tasks\<close>: \<open>cancel()\<close> is called on exactly the futures in
  \<open>active_tasks\<close>; they are returned with the new state.
\<close>

definition cancel_all_tasks :: "resource_manager \<Rightarrow> nat set \<times> resource_manager" where
  "cancel_all_tasks rm =
     (active_tasks rm,
      rm\<lparr>active_tasks := {},
         raw_decoder_pool := clear_decoder_pool (raw_decoder_pool rm)\<rparr>)"

text \<open>
  \<open>ResourceManager.shutdown\<close>: returns the futures cancelled by \<open>cancel_all_tasks\<close>
  and the joins and terminations done on the worker processes.
\<close>

definition shutdown :: "resource_manager \<Rightarrow> (nat set \<times> process_event list) \<times> resource_manager" where
  "shutdown rm =
     (if \<not> rm_running rm then (({}, []), rm)
      else
        (case cancel_all_tasks (rm\<lparr>rm_running := False\<rparr>) of
           (cancelled, rm1) \<Rightarrow>
             (case decoder_shutdown (raw_decoder_pool rm1) of
                (events, dpool) \<Rightarrow>
                  ((cancelled, events),
                   rm1\<lparr>imaging_thread_pool := pool_shutdown (imaging_thread_pool rm1),
                       raw_decoder_pool := dpool\<rparr>))))"

text \<open>
  A history of the manager as far as the thread pool is concerned. Each step yields
  what it made visible: the value returned by a submit call, the future the
  dispatch loop created, or the futures \<open>cancel_all_tasks\<close> cancelled. A step that
  raises leaves the state as it was, except that a dispatch pass in which
  \<open>super().submit\<close> raises has already taken the task out of its queue.
\<close>

datatype manager_op =
    SubmitPriority string task
  | SubmitTask task
  | DispatchPass
  | FutureDone nat
  | CancelAll
  | Monitor "rat option"
  | Shutdown

datatype manager_event =
    Returned "nat option"
  | Dispatched nat
  | Cancelled "nat set"
  | Raised py_error
  | Quiet

definition manager_step :: "resource_manager \<Rightarrow> manager_op \<Rightarrow> manager_event \<times> resource_manager" where
  "manager_step rm op =
     (case op of
        SubmitPriority priority t \<Rightarrow>
          (case submit_imaging_task_with_priority rm priority t of (r, rm') \<Rightarrow> (Returned r, rm'))
      | SubmitTask t \<Rightarrow>
          (case submit_imaging_task rm t of
             Inl e \<Rightarrow> (Raised e, rm)
           | Inr (r, rm') \<Rightarrow> (Returned r, rm'))
      | DispatchPass \<Rightarrow>
          if shutdown_flag (imaging_thread_pool rm) then (Quiet, rm)
          else
            (case process_iteration (imaging_thread_pool rm) of
               Inl e \<Rightarrow> (Raised e, rm\<lparr>imaging_thread_pool := take_next (imaging_thread_pool rm)\<rparr>)
             | Inr (None, pool') \<Rightarrow> (Quiet, rm\<lparr>imaging_thread_pool := pool'\<rparr>)
             | Inr (Some f, pool') \<Rightarrow> (Dispatched f, rm\<lparr>imaging_thread_pool := pool'\<rparr>))
      | FutureDone f \<Rightarrow> (Quiet, future_done rm f)
      | CancelAll \<Rightarrow> (case cancel_all_tasks rm of (c, rm') \<Rightarrow> (Cancelled c, rm'))
      | Monitor memory \<Rightarrow> (Quiet, snd (monitor_resources rm memory))
      | Shutdown \<Rightarrow> (case shutdown rm of ((c, _), rm') \<Rightarrow> (Cancelled c, rm')))"

fun run_manager :: "resource_manager \<Rightarrow> manager_op list \<Rightarrow> manager_event list \<times> resource_manager" where
  "run_manager rm [] = ([], rm)"
| "run_manager rm (op # ops) =
     (case manager_step rm op of
        (ev, rm') \<Rightarrow> (case run_manager rm' ops of (evs, rm'') \<Rightarrow> (ev # evs, rm'')))"

section \<open>The consumer of decode results\<close>

text \<open>
  What \<open>PhotoSortApp._on_raw_decoded_for_display\<close> does to the loader's cache.
  \<open>ignored\<close> is the early return for a result that no longer matches the displayed
  image; \<open>from_image\<close> is the pixmap \<open>QPixmap.fromImage\<close> yields for the decoded
  bytes. Every exception in the success branch is caught there.
\<close>

definition on_raw_decoded_for_display ::
  "image_loader \<Rightarrow> decode_result \<Rightarrow> bool \<Rightarrow> pixmap \<Rightarrow> image_loader" where
  "on_raw_decoded_for_display loader result ignored from_image =
     (if ignored then loader
      else if success result then
        (case (data result, shape result) of
           (Some data_bytes, Some shp) \<Rightarrow>
             if data_bytes = [] \<or> shp = [] then loader
             else if length shp \<noteq> 3 then loader
             else if isNull from_image then loader
             else (case add_to_cache loader (file_path result) (Some from_image) of
                     Inl e \<Rightarrow> loader
                   | Inr loader' \<Rightarrow> loader')
         | _ \<Rightarrow> loader)
      else loader)"

section \<open>Concrete states used below\<close>

definition pixmap_of :: "nat \<Rightarrow> pixmap" where
  "pixmap_of n = \<lparr>isNull = False, content = n\<rparr>"

definition null_pixmap :: pixmap where
  "null_pixmap = \<lparr>isNull = True, content = 0\<rparr>"

definition scenario_paths :: "string list" where
  "scenario_paths = [''p1'', ''p2'', ''p3'', ''p4'', ''p5'', ''p6'', ''p7'', ''p8'', ''p9'',
                     ''p10'', ''p11'']"

definition scenario_inserts :: "(string \<times> pixmap option) list" where
  "scenario_inserts = map (\<lambda>p. (p, Some (pixmap_of 1))) scenario_paths"

definition small_loader :: image_loader where
  "small_loader = ImageLoader_init 4 0"

definition task_of :: "string \<Rightarrow> task" where
  "task_of name = (''_preload_image'', [name], [])"

text \<open>Four submissions in the arrival order high, low, high, medium.\<close>

definition submit_four :: "priority_thread_pool \<Rightarrow> task \<Rightarrow> task \<Rightarrow> task \<Rightarrow> task \<Rightarrow> priority_thread_pool" where
  "submit_four pool a b c d =
     submit_with_priority
       (submit_with_priority
          (submit_with_priority (submit_with_priority pool ''high'' a) ''low'' b) ''high'' c)
       ''medium'' d"

text \<open>The task ids of the results with which callbacks were invoked.\<close>

definition call_ids :: "(callback \<times> decode_result) list \<Rightarrow> int list" where
  "call_ids calls = map (\<lambda>c. task_id (snd c)) calls"

text \<open>Two callbacks, a failure result as a worker produces it, and a pool history.\<close>

definition callback_A :: callback where "callback_A = \<lparr>cb_name = 1, cb_raises = False\<rparr>"

definition callback_B :: callback where "callback_B = \<lparr>cb_name = 2, cb_raises = False\<rparr>"

definition failure_result :: "int \<Rightarrow> string \<Rightarrow> decode_result" where
  "failure_result tid path = decode_request path tid (RawpyRaises ''data corrupted'')"

definition scenario_pool_ops :: "pool_op list" where
  "scenario_pool_ops =
     [DecodeRaw ''a.cr2'' callback_A, DecodeRaw ''b.nef'' callback_B, ProcessResults 5,
      WorkerPuts (failure_result 0 ''a.cr2''), WorkerPuts (failure_result 0 ''a.cr2''),
      WorkerPuts (failure_result 1 ''b.nef''), ProcessResults 5]"

text \<open>
  Two worker processes, the second of which has to be terminated, and a manager with
  one low-priority and six medium-priority tasks waiting.
\<close>

definition two_workers :: "process list" where
  "two_workers = [\<lparr>pid = 101, exits_in_time = True\<rparr>, \<lparr>pid = 102, exits_in_time = False\<rparr>]"

definition busy_manager :: resource_manager where
  "busy_manager =
     snd (run_manager (ResourceManager_init two_workers)
            [SubmitPriority ''low'' (task_of ''l1''),
             SubmitPriority ''medium'' (task_of ''m1''), SubmitPriority ''medium'' (task_of ''m2''),
             SubmitPriority ''medium'' (task_of ''m3''), SubmitPriority ''medium'' (task_of ''m4''),
             SubmitPriority ''medium'' (task_of ''m5''), SubmitPriority ''medium'' (task_of ''m6'')])"

text \<open>Every tracked future was created by the executor before now.\<close>

definition futures_tracked :: "resource_manager \<Rightarrow> bool" where
  "futures_tracked rm = (\<forall>f \<in> active_tasks rm. f < next_future (imaging_thread_pool rm))"

text \<open>A priority submission, a plain submission, one dispatch pass and a bulk cancel.\<close>

definition mixed_history :: "manager_op list" where
  "mixed_history =
     [SubmitPriority ''high'' (task_of ''a''), SubmitTask (task_of ''b''), DispatchPass, CancelAll]"

text \<open>
  A loader at its limit of ten entries \<open>p1 .. p10\<close> with index attributes that make
  \<open>p1\<close> the current image.
\<close>

definition pinned_loader :: image_loader where
  "pinned_loader =
     \<lparr>cache_limit = 10,
      cache = map (\<lambda>p. (p, pixmap_of 1)) (butlast scenario_paths),
      current_image_index = Some 0,
      image_files = Some scenario_paths,
      last_cache_adjustment = 0\<rparr>"

text \<open>
  The number of entries a health check removes, the number of cached keys outside
  the preserved set, a loader with three entries and an array of the wrong type.
\<close>

definition removed_by_health_check :: "image_loader \<Rightarrow> rat \<Rightarrow> rat \<Rightarrow> nat" where
  "removed_by_health_check self memory_percent current_time =
     length (cache self) - length (cache (check_cache_health self (Some memory_percent) current_time))"

definition unpinned_count :: "image_loader \<Rightarrow> nat" where
  "unpinned_count self =
     length (filter (\<lambda>k. k \<notin> set (preserved_paths self)) (od_keys (cache self)))"

definition three_loader :: image_loader where
  "three_loader =
     \<lparr>cache_limit = 10,
      cache = [(''p1'', pixmap_of 1), (''p2'', pixmap_of 2), (''p3'', pixmap_of 3)],
      current_image_index = None,
      image_files = None,
      last_cache_adjustment = 0\<rparr>"

definition unsupported_array :: ndarray where
  "unsupported_array = \<lparr>nd_dtype = ''uint16'', nd_shape = [2, 3, 3], nd_bytes = []\<rparr>"

text \<open>The worker's test for critically low memory: a reading above 95 percent.\<close>

definition above_critical :: "rat option \<Rightarrow> bool" where
  "above_critical memory =
     (case memory of None \<Rightarrow> False | Some memory_percent \<Rightarrow> memory_percent > 95)"

text \<open>
  Successive passes of one worker's loop, one per memory reading, until the poison
  value makes it exit.
\<close>

fun worker_passes ::
  "rat option list \<Rightarrow> (string \<times> int) option list \<Rightarrow> decode_result list \<Rightarrow> (string \<Rightarrow> rawpy_outcome)
     \<Rightarrow> (string \<times> int) option list \<times> decode_result list" where
  "worker_passes [] inq outq rawpy = (inq, outq)"
| "worker_passes (memory # later) inq outq rawpy =
     (case worker_iteration inq outq memory rawpy of
        (status, inq', outq') \<Rightarrow>
          if status = Exited then (inq', outq') else worker_passes later inq' outq' rawpy)"

text \<open>A library outcome for a file that cannot be decoded.\<close>

definition corrupt_file :: "string \<Rightarrow> rawpy_outcome" where
  "corrupt_file path = RawpyRaises ''data corrupted''"

section \<open>The cache stays within its limit\<close>

lemma evict_while_full_drop:
  "0 < limit \<Longrightarrow> evict_while_full limit d = drop (nat (int (length d) + 1 - limit)) d"
proof (induction d)
  case Nil
  then show ?case by simp
next
  case (Cons e es)
  show ?case
  proof (cases "int (length (e # es)) \<ge> limit")
    case True
    then have "nat (int (length (e # es)) + 1 - limit) = Suc (nat (int (length es) + 1 - limit))"
      using Cons.prems by simp
    then show ?thesis using True Cons by simp
  next
    case False
    then show ?thesis by simp
  qed
qed

lemma length_evict_while_full:
  "0 < limit \<Longrightarrow> int (length (evict_while_full limit d)) < limit"
  by (induction d) auto

lemma length_od_setitem: "length (od_setitem k v d) \<le> Suc (length d)"
  by (simp add: od_setitem_def)

lemma od_keys_update: "map fst (map (\<lambda>e. if fst e = k then (k, v) else e) d) = map fst d"
  by (induction d) auto

lemma od_keys_setitem:
  "od_keys (od_setitem k v d) = (if od_contains k d then od_keys d else od_keys d @ [k])"
  by (simp add: od_setitem_def od_keys_def od_keys_update)

lemma od_setitem_contains: "od_contains k (od_setitem k v d)"
  using od_keys_setitem[of k v d] by (simp add: od_contains_def split: if_splits)

lemma map_of_contains: "od_contains k d \<Longrightarrow> \<exists>v. map_of d k = Some v"
  by (induction d) (auto simp: od_contains_def od_keys_def)

lemma length_filter_contains:
  "od_contains k d \<Longrightarrow> Suc (length (filter (\<lambda>e. fst e \<noteq> k) d)) \<le> length d"
proof (induction d)
  case Nil
  then show ?case by (simp add: od_contains_def od_keys_def)
next
  case (Cons e es)
  show ?case
  proof (cases "fst e = k")
    case True
    have "length (filter (\<lambda>e. fst e \<noteq> k) es) \<le> length es" by simp
    with True show ?thesis by simp
  next
    case False
    with Cons.prems have "od_contains k es" by (simp add: od_contains_def od_keys_def)
    with Cons.IH False show ?thesis by simp
  qed
qed

lemma od_move_to_end_ok:
  "od_contains k d \<Longrightarrow> \<exists>d'. od_move_to_end k d = Inr d' \<and> length d' \<le> length d"
  using map_of_contains[of k d] length_filter_contains[of k d]
  by (auto simp: od_move_to_end_def)

lemma add_to_cache_bound:
  assumes "0 < cache_limit self"
  shows "\<exists>self'. add_to_cache self p pm = Inr self' \<and> cache_limit self' = cache_limit self
          \<and> (int (length (cache self)) \<le> cache_limit self \<or> (pm \<noteq> None \<and> \<not> isNull (the pm))
               \<longrightarrow> int (length (cache self')) \<le> cache_limit self)"
proof (cases pm)
  case None
  then show ?thesis by (simp add: add_to_cache_def)
next
  case (Some q)
  show ?thesis
  proof (cases "isNull q")
    case True
    with Some show ?thesis by (simp add: add_to_cache_def)
  next
    case False
    let ?c1 = "evict_while_full (cache_limit self) (cache self)"
    let ?c2 = "od_setitem p q ?c1"
    from od_move_to_end_ok[OF od_setitem_contains, of p q ?c1]
    obtain c3 where c3: "od_move_to_end p ?c2 = Inr c3" "length c3 \<le> length ?c2" by blast
    have "int (length ?c2) \<le> cache_limit self"
      using length_evict_while_full[OF assms, of "cache self"] length_od_setitem[of p q ?c1]
      by linarith
    with c3 have "int (length c3) \<le> cache_limit self" by linarith
    with c3 Some False show ?thesis by (simp add: add_to_cache_def Let_def)
  qed
qed



lemma add_all_to_cache_bound:
  assumes "0 < cache_limit self" "int (length (cache self)) \<le> cache_limit self"
  shows "\<exists>self'. add_all_to_cache self ops = Inr self' \<and> cache_limit self' = cache_limit self
          \<and> int (length (cache self')) \<le> cache_limit self"
  using assms
proof (induction ops arbitrary: self)
  case Nil
  then show ?case by simp
next
  case (Cons a ops)
  obtain p pm where a: "a = (p, pm)" by (cases a)
  from add_to_cache_bound[OF Cons.prems(1), of p pm] Cons.prems(2)
  obtain s1 where s1: "add_to_cache self p pm = Inr s1" "cache_limit s1 = cache_limit self"
      "int (length (cache s1)) \<le> cache_limit self" by blast
  from Cons.IH[of s1] s1 Cons.prems(1)
  show ?case by (simp add: a)
qed

lemma map_of_append_fresh:
  "k \<notin> fst ` set d \<Longrightarrow> map_of (d @ [(k, v)]) k = Some v"
  by (induction d) auto

lemma filter_fresh: "k \<notin> fst ` set d \<Longrightarrow> filter (\<lambda>e. fst e \<noteq> k) d = d"
  by (induction d) auto

lemma od_move_to_end_last:
  "k \<notin> fst ` set d \<Longrightarrow> od_move_to_end k (d @ [(k, v)]) = Inr (d @ [(k, v)])"
proof -
  assume a: "k \<notin> fst ` set d"
  have m: "map_of (d @ [(k, v)]) k = Some v" by (rule map_of_append_fresh[OF a])
  have f: "filter (\<lambda>e. fst e \<noteq> k) (d @ [(k, v)]) = d" using filter_fresh[OF a] by simp
  show ?thesis unfolding od_move_to_end_def m f by simp
qed

lemma add_to_cache_fresh:
  assumes "0 < cache_limit self" "\<not> od_contains p (cache self)" "\<not> isNull q"
  shows "add_to_cache self p (Some q) =
           Inr (self\<lparr>cache := drop (nat (int (length (cache self)) + 1 - cache_limit self))
                                  (cache self @ [(p, q)])\<rparr>)"
proof -
  let ?a = "nat (int (length (cache self)) + 1 - cache_limit self)"
  let ?c1 = "drop ?a (cache self)"
  have c1: "evict_while_full (cache_limit self) (cache self) = ?c1"
    by (rule evict_while_full_drop[OF assms(1)])
  have fresh: "p \<notin> fst ` set ?c1"
    using assms(2) in_set_dropD[of _ ?a "cache self"]
    by (auto simp: od_contains_def od_keys_def)
  then have c2: "od_setitem p q ?c1 = ?c1 @ [(p, q)]"
    by (simp add: od_setitem_def od_contains_def od_keys_def)
  have c3: "od_move_to_end p (?c1 @ [(p, q)]) = Inr (?c1 @ [(p, q)])"
    using fresh by (rule od_move_to_end_last)
  have le: "?a \<le> length (cache self)" using assms(1) by linarith
  show ?thesis
    using assms(3) le by (simp add: add_to_cache_def c1 c2 c3)
qed

lemma add_all_to_cache_fresh:
  assumes "0 < cache_limit self" "int (length (cache self)) \<le> cache_limit self"
    and "distinct (od_keys (cache self) @ map fst ops)"
    and "\<forall>e \<in> set ops. valid_pixmap (snd e)"
  shows "add_all_to_cache self ops =
           Inr (self\<lparr>cache :=
                  drop (nat (int (length (cache self) + length ops) - cache_limit self))
                       (cache self @ map (\<lambda>e. (fst e, the (snd e))) ops)\<rparr>)"
  using assms
proof (induction ops arbitrary: self)
  case Nil
  then show ?case by simp
next
  case (Cons a ops)
  obtain p q where a: "a = (p, Some q)" and q: "\<not> isNull q"
    using Cons.prems(4) by (cases a; cases "snd a") (auto simp: valid_pixmap_def)
  let ?L = "cache_limit self"
  let ?d = "cache self"
  let ?n = "nat (int (length ?d) + 1 - ?L)"
  let ?s1 = "self\<lparr>cache := drop ?n (?d @ [(p, q)])\<rparr>"
  have fresh: "\<not> od_contains p ?d"
    using Cons.prems(3) by (auto simp: a od_contains_def)
  have step: "add_to_cache self p (Some q) = Inr ?s1"
    by (rule add_to_cache_fresh[OF Cons.prems(1) fresh q])
  have le: "?n \<le> length ?d" using Cons.prems(1) by linarith
  have len1: "int (length (cache ?s1)) \<le> cache_limit ?s1"
    using Cons.prems(1,2) by (simp; linarith)
  have c1: "cache ?s1 = drop ?n ?d @ [(p, q)]" using le by simp
  have sub: "set (map fst (drop ?n ?d)) \<subseteq> set (map fst ?d)"
    using set_drop_subset[of ?n ?d] by auto
  have dd: "distinct (map fst (drop ?n ?d))"
    using Cons.prems(3) distinct_drop[of "map fst ?d" ?n] by (simp add: od_keys_def drop_map)
  have dist1: "distinct (od_keys (cache ?s1) @ map fst ops)"
  proof -
    have disj: "set (map fst ?d) \<inter> set (map fst ops) = {}"
      and pd: "p \<notin> set (map fst ?d)" and k2b: "p \<notin> set (map fst ops)"
      using Cons.prems(3) by (auto simp: a od_keys_def)
    have k1: "set (map fst (drop ?n ?d)) \<inter> set (map fst ops) = {}"
      using sub disj by blast
    have k2: "p \<notin> set (map fst (drop ?n ?d))" "p \<notin> set (map fst ops)"
      using sub pd k2b by blast+
    have k3: "distinct (map fst ops)" using Cons.prems(3) by simp
    show ?thesis unfolding c1 od_keys_def using k1 k2 k3 dd by simp
  qed
  have valid1: "\<forall>e \<in> set ops. valid_pixmap (snd e)" using Cons.prems(4) by simp
  have L1: "0 < cache_limit ?s1" using Cons.prems(1) by simp
  note IH = Cons.IH[OF L1 len1 dist1 valid1]
  let ?m = "map (\<lambda>e. (fst e, the (snd e))) ops"
  have arith: "?n + nat (int (length (drop ?n (?d @ [(p, q)])) + length ops) - ?L)
               = nat (int (length ?d + length (a # ops)) - ?L)"
    using Cons.prems(1,2) le by (simp; linarith)
  have "drop (nat (int (length (drop ?n (?d @ [(p, q)])) + length ops) - ?L))
             (drop ?n (?d @ [(p, q)]) @ ?m)
        = drop (nat (int (length (drop ?n (?d @ [(p, q)])) + length ops) - ?L))
             (drop ?n ((?d @ [(p, q)]) @ ?m))"
    using le by simp
  also have "\<dots> = drop (nat (int (length ?d + length (a # ops)) - ?L)) (?d @ (p, q) # ?m)"
    by (simp only: drop_drop arith add.commute[of _ ?n]) simp
  finally have eq: "drop (nat (int (length (drop ?n (?d @ [(p, q)])) + length ops) - ?L))
             (drop ?n (?d @ [(p, q)]) @ ?m)
       = drop (nat (int (length ?d + length (a # ops)) - ?L)) (?d @ (p, q) # ?m)" .
  show ?case
    using IH eq by (simp add: a step)
qed


lemma calculate_adaptive_cache_size_pos: "0 < calculate_adaptive_cache_size m"
  by (simp add: calculate_adaptive_cache_size_def)

text \<open>
  C1. With a positive limit and a cache that starts within the limit, the cache holds
  at most \<open>cache_limit\<close> entries after each call of a sequence of \<open>_add_to_cache\<close>
  calls, none of which raises. With limit 10, an empty cache and eleven distinct paths
  with valid pixmaps, the cache ends with exactly ten entries, the first path is gone
  and the other ten are kept in insertion order. For the loader that \<open>__init__\<close>
  creates, whatever the sampled memory, the bound holds after each call with no
  further condition, since every value of \<open>calculate_adaptive_cache_size\<close> is
  positive.
\<close>

theorem cache_bound_after_each_insertion:
  assumes "0 < cache_limit self" and "int (length (cache self)) \<le> cache_limit self"
  shows "(\<forall>n. \<exists>self'. add_all_to_cache self (take n ops) = Inr self'
                 \<and> int (length (cache self')) \<le> cache_limit self)
       \<and> (cache_limit self = 10 \<and> cache self = [] \<and> length ops = 11
            \<and> distinct (map fst ops) \<and> (\<forall>e \<in> set ops. valid_pixmap (snd e))
          \<longrightarrow> (\<exists>self'. add_all_to_cache self ops = Inr self'
                 \<and> length (cache self') = 10
                 \<and> \<not> od_contains (fst (hd ops)) (cache self')
                 \<and> od_keys (cache self') = tl (map fst ops)))
       \<and> (\<forall>n. \<exists>self'. add_all_to_cache (ImageLoader_init mem now) (take n ops) = Inr self'
                 \<and> int (length (cache self')) \<le> calculate_adaptive_cache_size mem)"
proof (intro conjI allI impI)
  fix n
  from add_all_to_cache_bound[OF assms, of "take n ops"]
  show "\<exists>self'. add_all_to_cache self (take n ops) = Inr self'
           \<and> int (length (cache self')) \<le> cache_limit self" by blast
next
  fix n
  have p: "0 < cache_limit (ImageLoader_init mem now)"
    and e: "int (length (cache (ImageLoader_init mem now))) \<le> cache_limit (ImageLoader_init mem now)"
    and l: "cache_limit (ImageLoader_init mem now) = calculate_adaptive_cache_size mem"
    using calculate_adaptive_cache_size_pos[of mem] by (simp_all add: ImageLoader_init_def)
  from add_all_to_cache_bound[OF p e, of "take n ops"] l
  show "\<exists>self'. add_all_to_cache (ImageLoader_init mem now) (take n ops) = Inr self'
           \<and> int (length (cache self')) \<le> calculate_adaptive_cache_size mem" by auto
next
  assume h: "cache_limit self = 10 \<and> cache self = [] \<and> length ops = 11
            \<and> distinct (map fst ops) \<and> (\<forall>e \<in> set ops. valid_pixmap (snd e))"
  then obtain e rest where ops: "ops = e # rest" by (cases ops) auto
  from h have d: "distinct (od_keys (cache self) @ map fst ops)" by (simp add: od_keys_def)
  from h have v: "\<forall>e \<in> set ops. valid_pixmap (snd e)" by simp
  let ?m = "map (\<lambda>e. (fst e, the (snd e))) ops"
  have run: "add_all_to_cache self ops = Inr (self\<lparr>cache := drop 1 ?m\<rparr>)"
    using add_all_to_cache_fresh[OF assms d v] h by simp
  have keys: "od_keys (drop 1 ?m) = tl (map fst ops)"
    by (simp add: od_keys_def drop_Suc map_tl[symmetric] comp_def)
  have "fst (hd ops) \<notin> set (tl (map fst ops))"
    using h by (simp add: ops)
  with keys have absent: "\<not> od_contains (fst (hd ops)) (drop 1 ?m)"
    by (simp add: od_contains_def)
  have len: "length (drop 1 ?m) = 10" using h by simp
  show "\<exists>self'. add_all_to_cache self ops = Inr self'
                 \<and> length (cache self') = 10
                 \<and> \<not> od_contains (fst (hd ops)) (cache self')
                 \<and> od_keys (cache self') = tl (map fst ops)"
    using run keys absent len by simp
qed

theorem cache_bound_after_each_insertion_witness:
  "\<exists>self'. add_all_to_cache small_loader scenario_inserts = Inr self'
      \<and> int (length (cache self')) \<le> 10
      \<and> length (cache self') = 10
      \<and> \<not> od_contains ''p1'' (cache self')
      \<and> od_keys (cache self') =
          [''p2'', ''p3'', ''p4'', ''p5'', ''p6'', ''p7'', ''p8'', ''p9'', ''p10'', ''p11'']"
proof -
  have a: "0 < cache_limit small_loader"
    and b: "int (length (cache small_loader)) \<le> cache_limit small_loader"
    by (simp_all add: small_loader_def ImageLoader_init_def calculate_adaptive_cache_size_def)
  have c: "cache_limit small_loader = 10 \<and> cache small_loader = []
           \<and> length scenario_inserts = 11 \<and> distinct (map fst scenario_inserts)
           \<and> (\<forall>e \<in> set scenario_inserts. valid_pixmap (snd e))"
    by (simp add: small_loader_def ImageLoader_init_def calculate_adaptive_cache_size_def
        scenario_inserts_def scenario_paths_def valid_pixmap_def pixmap_of_def)
  from cache_bound_after_each_insertion[OF a b, of scenario_inserts, THEN conjunct2, THEN conjunct1] c
  obtain self' where r: "add_all_to_cache small_loader scenario_inserts = Inr self'"
    "length (cache self') = 10" "\<not> od_contains (fst (hd scenario_inserts)) (cache self')"
    "od_keys (cache self') = tl (map fst scenario_inserts)"
    by blast
  from r(3) have "\<not> od_contains ''p1'' (cache self')"
    by (simp add: scenario_inserts_def scenario_paths_def)
  moreover from r(4) have "od_keys (cache self') =
          [''p2'', ''p3'', ''p4'', ''p5'', ''p6'', ''p7'', ''p8'', ''p9'', ''p10'', ''p11'']"
    by (simp add: scenario_inserts_def scenario_paths_def)
  ultimately show ?thesis using r(1,2) by simp
qed

section \<open>Dispatch order of the priority queues\<close>

lemma process_iteration_cases:
  assumes "\<not> executor_shutdown pool"
  shows "\<exists>r pool'. process_iteration pool = Inr (r, pool')
           \<and> shutdown_flag pool' = shutdown_flag pool
           \<and> executor_shutdown pool' = executor_shutdown pool
           \<and> map snd (submitted pool') =
               map snd (submitted pool) @ take 1 (high_queue pool @ medium_queue pool @ low_queue pool)
           \<and> high_queue pool' @ medium_queue pool' @ low_queue pool' =
               drop 1 (high_queue pool @ medium_queue pool @ low_queue pool)"
  using assms
  by (cases "high_queue pool"; cases "medium_queue pool"; cases "low_queue pool")
     (simp_all add: process_iteration_def executor_submit_def)

lemma process_priority_queues_order:
  assumes "\<not> shutdown_flag pool" "\<not> executor_shutdown pool"
  shows "\<exists>pool'. process_priority_queues n pool = Inr pool'
           \<and> map snd (submitted pool') =
               map snd (submitted pool) @ take n (high_queue pool @ medium_queue pool @ low_queue pool)"
  using assms
proof (induction n arbitrary: pool)
  case 0
  then show ?case by simp
next
  case (Suc n)
  let ?q = "high_queue pool @ medium_queue pool @ low_queue pool"
  from process_iteration_cases[OF Suc.prems(2)]
  obtain r p1 where p1: "process_iteration pool = Inr (r, p1)"
      "shutdown_flag p1 = shutdown_flag pool" "executor_shutdown p1 = executor_shutdown pool"
      "map snd (submitted p1) = map snd (submitted pool) @ take 1 ?q"
      "high_queue p1 @ medium_queue p1 @ low_queue p1 = drop 1 ?q"
    by blast
  from Suc.IH[of p1] p1 Suc.prems
  obtain p2 where p2: "process_priority_queues n p1 = Inr p2"
      "map snd (submitted p2) = (map snd (submitted pool) @ take 1 ?q) @ take n (drop 1 ?q)"
    by auto
  have "take 1 ?q @ take n (drop 1 ?q) = take (Suc n) ?q"
    by (cases ?q) simp_all
  with p1 p2 Suc.prems show ?case by simp
qed

text \<open>
  C2. While the pool is not shut down, \<open>n\<close> passes of the dispatch loop hand to the
  underlying executor the first \<open>n\<close> tasks of the high queue followed by the medium
  queue followed by the low queue, each queue in arrival order. For tasks submitted
  as high \<open>a\<close>, low \<open>b\<close>, high \<open>c\<close>, medium \<open>d\<close> into empty queues before any
  pass, the order handed over is \<open>a, c, d, b\<close>: high, high, medium, low.
\<close>

theorem dispatch_order_by_priority:
  assumes "\<not> shutdown_flag pool" and "\<not> executor_shutdown pool"
  shows "(\<exists>pool'. process_priority_queues n pool = Inr pool'
            \<and> map snd (submitted pool') =
                map snd (submitted pool)
                @ take n (high_queue pool @ medium_queue pool @ low_queue pool))
       \<and> (high_queue pool = [] \<and> medium_queue pool = [] \<and> low_queue pool = []
          \<longrightarrow> (\<exists>pool'. process_priority_queues n (submit_four pool a b c d) = Inr pool'
                 \<and> map snd (submitted pool') = map snd (submitted pool) @ take n [a, c, d, b]))"
proof (intro conjI impI)
  show "\<exists>pool'. process_priority_queues n pool = Inr pool'
            \<and> map snd (submitted pool') =
                map snd (submitted pool)
                @ take n (high_queue pool @ medium_queue pool @ low_queue pool)"
    by (rule process_priority_queues_order[OF assms])
next
  assume e: "high_queue pool = [] \<and> medium_queue pool = [] \<and> low_queue pool = []"
  let ?p = "submit_four pool a b c d"
  have f: "\<not> shutdown_flag ?p" "\<not> executor_shutdown ?p" "submitted ?p = submitted pool"
    "high_queue ?p = [a, c]" "medium_queue ?p = [d]" "low_queue ?p = [b]"
    using assms e by (simp_all add: submit_four_def submit_with_priority_def)
  from process_priority_queues_order[OF f(1,2), of n] f
  show "\<exists>pool'. process_priority_queues n ?p = Inr pool'
                 \<and> map snd (submitted pool') = map snd (submitted pool) @ take n [a, c, d, b]"
    by simp
qed

theorem dispatch_order_by_priority_witness:
  "\<exists>pool'. process_priority_queues 4
              (submit_four PriorityThreadPoolExecutor_init
                 (task_of ''h1'') (task_of ''l1'') (task_of ''h2'') (task_of ''m1'')) = Inr pool'
     \<and> map snd (submitted pool') = [task_of ''h1'', task_of ''h2'', task_of ''m1'', task_of ''l1'']"
proof -
  have a: "\<not> shutdown_flag PriorityThreadPoolExecutor_init"
    and b: "\<not> executor_shutdown PriorityThreadPoolExecutor_init"
    by (simp_all add: PriorityThreadPoolExecutor_init_def)
  from dispatch_order_by_priority[OF a b, of 4 "task_of ''h1''" "task_of ''l1''" "task_of ''h2''" "task_of ''m1''"]
  show ?thesis by (simp add: PriorityThreadPoolExecutor_init_def)
qed

section \<open>Task ids and callbacks of the decoder pool\<close>

lemma call_ids_simps [simp]:
  "call_ids [] = []"
  "call_ids (c # cs) = task_id (snd c) # call_ids cs"
  "call_ids (xs @ ys) = call_ids xs @ call_ids ys"
  by (simp_all add: call_ids_def)

lemma returned_ids_simps [simp]:
  "returned_ids [] = []"
  "returned_ids (None # rs) = returned_ids rs"
  "returned_ids (Some i # rs) = i # returned_ids rs"
  by (simp_all add: returned_ids_def)

lemma od_keys_delitem: "set (od_keys (od_delitem k d)) = set (od_keys d) - {k}"
  by (induction d) (auto simp: od_keys_def od_delitem_def)

lemma map_of_Some_key: "map_of d k = Some v \<Longrightarrow> k \<in> set (od_keys d)"
  by (induction d) (auto simp: od_keys_def split: if_splits)

lemma od_keys_setitem_set: "set (od_keys (od_setitem k v d)) = insert k (set (od_keys d))"
proof (cases "od_contains k d")
  case True
  then have "k \<in> set (od_keys d)" by (simp add: od_contains_def)
  with True show ?thesis by (simp add: od_keys_setitem insert_absorb)
next
  case False
  then show ?thesis by (simp add: od_keys_setitem)
qed

lemma drain_results_calls:
  "drain_results m p pending q = (n, pending', rest', calls) \<Longrightarrow>
     distinct (call_ids calls)
     \<and> set (call_ids calls) \<subseteq> set (od_keys pending)
     \<and> set (od_keys pending') = set (od_keys pending) - set (call_ids calls)"
proof (induction q arbitrary: p pending n pending' rest' calls)
  case Nil
  then show ?case by (simp add: call_ids_def)
next
  case (Cons result rest)
  let ?k = "task_id result"
  show ?case
  proof (cases "p < m")
    case False
    with Cons.prems show ?thesis by (simp add: call_ids_def)
  next
    case True
    show ?thesis
    proof (cases "map_of pending ?k")
      case None
      with True Cons.prems have "drain_results m (p + 1) pending rest = (n, pending', rest', calls)"
        by simp
      from Cons.IH[OF this] show ?thesis .
    next
      case (Some cb)
      then have key: "?k \<in> set (od_keys pending)" by (rule map_of_Some_key)
      show ?thesis
      proof (cases "cb_raises cb")
        case True
        with \<open>p < m\<close> Some Cons.prems
        have "calls = [(cb, result)]" "pending' = od_delitem ?k pending" by simp_all
        with key show ?thesis by (simp add: call_ids_def od_keys_delitem)
      next
        case False
        obtain n1 pe1 re1 ca1 where
          rec: "drain_results m (p + 1) (od_delitem ?k pending) rest = (n1, pe1, re1, ca1)"
          by (cases "drain_results m (p + 1) (od_delitem ?k pending) rest") auto
        with \<open>p < m\<close> Some False Cons.prems
        have eq: "calls = (cb, result) # ca1" "pending' = pe1" by simp_all
        from Cons.IH[OF rec]
        have ih: "distinct (call_ids ca1)"
          "set (call_ids ca1) \<subseteq> set (od_keys pending) - {?k}"
          "set (od_keys pe1) = set (od_keys pending) - {?k} - set (call_ids ca1)"
          by (simp_all add: od_keys_delitem)
        from ih key show ?thesis unfolding eq by auto
      qed
    qed
  qed
qed

lemma run_pool_invariant:
  assumes "\<forall>k \<in> set (od_keys (tasks pool)). k < next_task_id pool"
    and "run_pool pool ops = (rs, calls, pool')"
  shows "sorted_wrt (<) (returned_ids rs)
       \<and> (\<forall>i \<in> set (returned_ids rs). next_task_id pool \<le> i)
       \<and> distinct (call_ids calls)
       \<and> (\<forall>i \<in> set (call_ids calls). i \<in> set (od_keys (tasks pool)) \<or> next_task_id pool \<le> i)"
  using assms
proof (induction ops arbitrary: pool rs calls pool')
  case Nil
  then show ?case by simp
next
  case (Cons op ops)
  show ?case
  proof (cases op)
    case (DecodeRaw path cb)
    obtain r p1 where d: "decode_raw pool path cb = (r, p1)" by (cases "decode_raw pool path cb")
    obtain rs1 ca1 p2 where run: "run_pool p1 ops = (rs1, ca1, p2)" by (cases "run_pool p1 ops")
    from Cons.prems(2) DecodeRaw d run have eq: "rs = r # rs1" "calls = ca1" by simp_all
    show ?thesis
    proof (cases "pool_running pool")
      case False
      with d have "r = None" "p1 = pool" by (simp_all add: decode_raw_def)
      with Cons.IH[OF _ run] Cons.prems(1) eq show ?thesis by simp
    next
      case True
      with d have r: "r = Some (next_task_id pool)"
        and n1: "next_task_id p1 = next_task_id pool + 1"
        and t1: "tasks p1 = od_setitem (next_task_id pool) cb (tasks pool)"
        by (auto simp: decode_raw_def Let_def)
      have inv1: "\<forall>k \<in> set (od_keys (tasks p1)). k < next_task_id p1"
        using Cons.prems(1) by (auto simp: n1 t1 od_keys_setitem_set)
      from Cons.IH[OF inv1 run]
      have ih: "sorted_wrt (<) (returned_ids rs1)"
        "\<forall>i \<in> set (returned_ids rs1). next_task_id pool + 1 \<le> i"
        "distinct (call_ids ca1)"
        "\<forall>i \<in> set (call_ids ca1). i \<in> set (od_keys (tasks p1)) \<or> next_task_id pool + 1 \<le> i"
        by (simp_all add: n1)
      from ih show ?thesis unfolding eq r
        by (auto simp: t1 od_keys_setitem_set)
    qed
  next
    case (ProcessResults m)
    obtain n ca0 p1 where d: "process_results pool m = (n, ca0, p1)"
      by (cases "process_results pool m")
    obtain rs1 ca1 p2 where run: "run_pool p1 ops = (rs1, ca1, p2)" by (cases "run_pool p1 ops")
    from Cons.prems(2) ProcessResults d run have eq: "rs = rs1" "calls = ca0 @ ca1" by simp_all
    have facts: "distinct (call_ids ca0) \<and> set (call_ids ca0) \<subseteq> set (od_keys (tasks pool))
        \<and> set (od_keys (tasks p1)) = set (od_keys (tasks pool)) - set (call_ids ca0)
        \<and> next_task_id p1 = next_task_id pool"
    proof (cases "pool_running pool")
      case False
      with d show ?thesis by (simp add: process_results_def call_ids_def)
    next
      case True
      obtain n' pe re ca where dr:
        "drain_results m 0 (tasks pool) (output_queue pool) = (n', pe, re, ca)"
        by (cases "drain_results m 0 (tasks pool) (output_queue pool)") auto
      with True d have "ca0 = ca" "tasks p1 = pe" "next_task_id p1 = next_task_id pool"
        by (auto simp: process_results_def)
      with drain_results_calls[OF dr] show ?thesis by simp
    qed
    then have inv1: "\<forall>k \<in> set (od_keys (tasks p1)). k < next_task_id p1"
      using Cons.prems(1) by auto
    from Cons.IH[OF inv1 run] facts
    have ih: "sorted_wrt (<) (returned_ids rs1)"
      "\<forall>i \<in> set (returned_ids rs1). next_task_id pool \<le> i"
      "distinct (call_ids ca1)"
      "\<forall>i \<in> set (call_ids ca1). i \<in> set (od_keys (tasks p1)) \<or> next_task_id pool \<le> i"
      by simp_all
    have disj: "set (call_ids ca0) \<inter> set (call_ids ca1) = {}"
    proof -
      { fix i assume a: "i \<in> set (call_ids ca0)" and b: "i \<in> set (call_ids ca1)"
        from a facts have "i \<in> set (od_keys (tasks pool))" "i \<notin> set (od_keys (tasks p1))" by auto
        with Cons.prems(1) ih(4) b have False by force }
      then show ?thesis by blast
    qed
    from ih facts disj show ?thesis unfolding eq by auto
  next
    case (WorkerPuts r)
    let ?p1 = "pool\<lparr>output_queue := output_queue pool @ [r]\<rparr>"
    from Cons.prems(2) WorkerPuts have run: "run_pool ?p1 ops = (rs, calls, pool')" by simp
    from Cons.IH[OF _ run] Cons.prems(1) show ?thesis by simp
  next
    case ClearPool
    from Cons.prems(2) ClearPool have run: "run_pool (clear_decoder_pool pool) ops = (rs, calls, pool')"
      by simp
    from Cons.IH[OF _ run] show ?thesis by (simp add: clear_decoder_pool_def od_keys_def)
  next
    case ShutdownPool
    from Cons.prems(2) ShutdownPool
    have run: "run_pool (snd (decoder_shutdown pool)) ops = (rs, calls, pool')" by simp
    have "\<forall>k\<in>set (od_keys (tasks (snd (decoder_shutdown pool)))). k < next_task_id (snd (decoder_shutdown pool))"
      using Cons.prems(1) by (simp add: decoder_shutdown_def od_keys_def)
    from Cons.IH[OF this run] show ?thesis
      by (auto simp: decoder_shutdown_def od_keys_def split: if_splits)
  qed
qed

text \<open>
  C3. In every history of a freshly created decoder pool (submissions, polls, results
  arriving in any number and with any task id, clearing, shutdown) the task ids
  returned by \<open>decode_raw\<close> are strictly increasing, hence pairwise distinct, and no
  two callback invocations made by \<open>process_results\<close> are for the same task id. On a
  running pool \<open>decode_raw\<close> returns the current counter and advances it by one.
\<close>

theorem task_ids_increasing_callbacks_once:
  "(case run_pool (RawDecoderPool_init spawned) ops of
      (rs, calls, pool') \<Rightarrow>
        sorted_wrt (<) (returned_ids rs) \<and> distinct (returned_ids rs)
        \<and> distinct (call_ids calls))
   \<and> (pool_running pool \<longrightarrow>
        fst (decode_raw pool path cb) = Some (next_task_id pool)
        \<and> next_task_id (snd (decode_raw pool path cb)) = next_task_id pool + 1)"
proof -
  obtain rs calls pool' where run: "run_pool (RawDecoderPool_init spawned) ops = (rs, calls, pool')"
    by (cases "run_pool (RawDecoderPool_init spawned) ops")
  have "\<forall>k \<in> set (od_keys (tasks (RawDecoderPool_init spawned))).
          k < next_task_id (RawDecoderPool_init spawned)"
    by (simp add: RawDecoderPool_init_def od_keys_def)
  from run_pool_invariant[OF this run]
  have s: "sorted_wrt (<) (returned_ids rs)" and d: "distinct (call_ids calls)" by simp_all
  from s have "distinct (returned_ids rs)" by (simp add: strict_sorted_iff)
  with s d run show ?thesis by (simp add: decode_raw_def Let_def)
qed

theorem task_ids_increasing_callbacks_once_witness:
  "returned_ids (fst (run_pool (RawDecoderPool_init []) scenario_pool_ops)) = [0, 1]
   \<and> call_ids (fst (snd (run_pool (RawDecoderPool_init []) scenario_pool_ops))) = [0, 1]
   \<and> pool_running (RawDecoderPool_init [])
   \<and> fst (decode_raw (RawDecoderPool_init []) ''a.cr2'' callback_A) = Some 0"
  using task_ids_increasing_callbacks_once[of "[]" scenario_pool_ops "RawDecoderPool_init []"
          "''a.cr2''" callback_A]
  by (simp add: scenario_pool_ops_def RawDecoderPool_init_def decode_raw_def process_results_def
      od_setitem_def od_contains_def od_keys_def od_delitem_def failure_result_def
      decode_request_def callback_A_def callback_B_def)

lemma drain_results_shift:
  "drain_results m (p + 1) pending q =
     (case drain_results (m - 1) p pending q of (n, x) \<Rightarrow> (n + 1, x))"
proof (induction q arbitrary: p pending)
  case Nil
  then show ?case by simp
next
  case (Cons result rest)
  let ?k = "task_id result"
  have c: "(p + 1 < m) = (p < m - 1)" by linarith
  show ?case
  proof (cases "p < m - 1")
    case False
    with c show ?thesis by simp
  next
    case True
    show ?thesis
    proof (cases "map_of pending ?k")
      case None
      with True c Cons.IH[of "p + 1" pending] show ?thesis by simp
    next
      case (Some cb)
      show ?thesis
      proof (cases "cb_raises cb")
        case True
        with \<open>p < m - 1\<close> c Some show ?thesis by simp
      next
        case False
        obtain n1 x1 where r: "drain_results (m - 1) (p + 1) (od_delitem ?k pending) rest = (n1, x1)"
          by (cases "drain_results (m - 1) (p + 1) (od_delitem ?k pending) rest")
        obtain a1 b1 c1 where x1: "x1 = (a1, b1, c1)" by (cases x1)
        from Cons.IH[of "p + 1" "od_delitem ?k pending"] r
        have "drain_results m (p + 1 + 1) (od_delitem ?k pending) rest = (n1 + 1, x1)" by simp
        with True c Some False r x1 show ?thesis by simp
      qed
    qed
  qed
qed

lemma map_of_None_iff: "(map_of d k = None) = (\<not> od_contains k d)"
  by (simp add: map_of_eq_None_iff od_contains_def od_keys_def)

text \<open>
  C10. When the first waiting result has a task id without an entry in the pending
  map, \<open>process_results\<close> on a running pool with a positive budget behaves as on the
  rest of the queue with the budget reduced by one, and returns a count larger by
  one: the orphan is taken from the queue and counted, no callback is called for it
  and the map is as before. With only the orphan waiting the call returns 1, makes no
  invocation and changes nothing but the queue.
\<close>

theorem orphan_result_consumed_and_counted:
  assumes "pool_running pool" and "\<not> od_contains (task_id r) (tasks pool)"
    and "0 < max_results"
  shows "process_results (pool\<lparr>output_queue := r # rest\<rparr>) max_results =
           (case process_results (pool\<lparr>output_queue := rest\<rparr>) (max_results - 1) of
              (n, calls, pool') \<Rightarrow> (n + 1, calls, pool'))
       \<and> process_results (pool\<lparr>output_queue := [r]\<rparr>) max_results =
           (1, [], pool\<lparr>output_queue := []\<rparr>)"
proof -
  from assms(2) have none: "map_of (tasks pool) (task_id r) = None" by (simp add: map_of_None_iff)
  have step: "drain_results max_results 0 (tasks pool) (r # rest) =
      (case drain_results (max_results - 1) 0 (tasks pool) rest of (n, x) \<Rightarrow> (n + 1, x))"
    using none assms(3) drain_results_shift[of max_results 0 "tasks pool" rest] by simp
  have one: "drain_results max_results 0 (tasks pool) [r] = (1, tasks pool, [], [])"
    using none assms(3) by simp
  have first: "process_results (pool\<lparr>output_queue := r # rest\<rparr>) max_results =
           (case process_results (pool\<lparr>output_queue := rest\<rparr>) (max_results - 1) of
              (n, calls, pool') \<Rightarrow> (n + 1, calls, pool'))"
    using assms(1)
    by (simp add: process_results_def step split: prod.splits del: drain_results.simps)
  have second: "process_results (pool\<lparr>output_queue := [r]\<rparr>) max_results =
           (1, [], pool\<lparr>output_queue := []\<rparr>)"
    using assms(1) by (simp add: process_results_def one del: drain_results.simps)
  from first second show ?thesis by (rule conjI)
qed

theorem orphan_result_consumed_and_counted_witness:
  "process_results
     ((clear_decoder_pool (snd (decode_raw (RawDecoderPool_init []) ''a.cr2'' callback_A)))
        \<lparr>output_queue := [failure_result 0 ''a.cr2'', failure_result 7 ''b.nef'']\<rparr>) 1
   = (1, [], (clear_decoder_pool (snd (decode_raw (RawDecoderPool_init []) ''a.cr2'' callback_A)))
        \<lparr>output_queue := [failure_result 7 ''b.nef'']\<rparr>)"
  using orphan_result_consumed_and_counted[of
      "clear_decoder_pool (snd (decode_raw (RawDecoderPool_init []) ''a.cr2'' callback_A))"
      "failure_result 0 ''a.cr2''" 1 "[failure_result 7 ''b.nef'']"]
  by (simp add: RawDecoderPool_init_def decode_raw_def process_results_def clear_decoder_pool_def
      od_contains_def od_keys_def failure_result_def decode_request_def)

section \<open>Shutdown, tracking and cancellation in the resource manager\<close>

lemma shutdown_not_running: "\<not> rm_running (snd (shutdown rm))"
  by (simp add: shutdown_def cancel_all_tasks_def decoder_shutdown_def split: prod.splits)

lemma decoder_shutdown_not_running: "\<not> pool_running (snd (decoder_shutdown pool))"
  by (simp add: decoder_shutdown_def)

text \<open>
  C8. A second call of \<open>ResourceManager.shutdown\<close>, and of
  \<open>RawDecoderPool.shutdown\<close>, returns at once: the state is unchanged, no future is
  cancelled and no process is joined or terminated again, and no branch of it raises.
  After the first shutdown \<open>submit_imaging_task\<close>,
  \<open>submit_imaging_task_with_priority\<close> and \<open>submit_raw_decoding\<close> return \<open>None\<close>
  and leave the state as it is, and \<open>process_raw_results\<close> returns 0; the same holds
  for \<open>decode_raw\<close> and \<open>process_results\<close> of a pool that was shut down.
\<close>

theorem shutdown_is_idempotent:
  "shutdown (snd (shutdown rm)) = (({}, []), snd (shutdown rm))
   \<and> decoder_shutdown (snd (decoder_shutdown pool)) = ([], snd (decoder_shutdown pool))
   \<and> submit_imaging_task (snd (shutdown rm)) t = Inr (None, snd (shutdown rm))
   \<and> submit_imaging_task_with_priority (snd (shutdown rm)) priority t = (None, snd (shutdown rm))
   \<and> submit_raw_decoding (snd (shutdown rm)) path cb = (None, snd (shutdown rm))
   \<and> process_raw_results (snd (shutdown rm)) m = (0, [], snd (shutdown rm))
   \<and> decode_raw (snd (decoder_shutdown pool)) path cb = (None, snd (decoder_shutdown pool))
   \<and> process_results (snd (decoder_shutdown pool)) m = (0, [], snd (decoder_shutdown pool))"
proof -
  have a: "\<not> rm_running (snd (shutdown rm))" by (rule shutdown_not_running)
  have b: "\<not> pool_running (snd (decoder_shutdown pool))" by (rule decoder_shutdown_not_running)
  have 1: "shutdown (snd (shutdown rm)) = (({}, []), snd (shutdown rm))"
    using a by (subst shutdown_def) simp
  have 2: "decoder_shutdown (snd (decoder_shutdown pool)) = ([], snd (decoder_shutdown pool))"
    using b by (subst decoder_shutdown_def) simp
  have 3: "submit_imaging_task (snd (shutdown rm)) t = Inr (None, snd (shutdown rm))"
    using a by (simp add: submit_imaging_task_def)
  have 4: "submit_imaging_task_with_priority (snd (shutdown rm)) priority t = (None, snd (shutdown rm))"
    using a by (simp add: submit_imaging_task_with_priority_def)
  have 5: "submit_raw_decoding (snd (shutdown rm)) path cb = (None, snd (shutdown rm))"
    using a by (simp add: submit_raw_decoding_def)
  have 6: "process_raw_results (snd (shutdown rm)) m = (0, [], snd (shutdown rm))"
    using a by (simp add: process_raw_results_def)
  have 7: "decode_raw (snd (decoder_shutdown pool)) path cb = (None, snd (decoder_shutdown pool))"
    using b by (simp add: decode_raw_def)
  have 8: "process_results (snd (decoder_shutdown pool)) m = (0, [], snd (decoder_shutdown pool))"
    using b by (simp add: process_results_def)
  from 1 2 3 4 5 6 7 8 show ?thesis by blast
qed

theorem shutdown_is_idempotent_witness:
  "fst (shutdown busy_manager) = ({}, [Join 101, Join 102, Terminate 102])
   \<and> shutdown (snd (shutdown busy_manager)) = (({}, []), snd (shutdown busy_manager))
   \<and> submit_imaging_task (snd (shutdown busy_manager)) (task_of ''x'')
       = Inr (None, snd (shutdown busy_manager))"
  using shutdown_is_idempotent[of busy_manager "raw_decoder_pool busy_manager" "task_of ''x''"]
  by (simp add: busy_manager_def ResourceManager_init_def manager_step_def
      submit_imaging_task_with_priority_def shutdown_def cancel_all_tasks_def
      decoder_shutdown_def RawDecoderPool_init_def clear_decoder_pool_def two_workers_def
      stop_process_def)

lemma process_iteration_future:
  "process_iteration pool = Inr (r, pool') \<Longrightarrow>
     (case r of None \<Rightarrow> next_future pool' = next_future pool
      | Some f \<Rightarrow> f = next_future pool \<and> next_future pool' = Suc (next_future pool))"
  by (cases "high_queue pool"; cases "medium_queue pool"; cases "low_queue pool")
     (auto simp: process_iteration_def executor_submit_def split: if_splits)

lemma manager_step_tracked:
  assumes "futures_tracked rm" and "manager_step rm op = (ev, rm')"
  shows "futures_tracked rm'
       \<and> next_future (imaging_thread_pool rm) \<le> next_future (imaging_thread_pool rm')
       \<and> (\<forall>x \<in> active_tasks rm'. x \<in> active_tasks rm
              \<or> next_future (imaging_thread_pool rm) \<le> x)
       \<and> (\<forall>f. ev = Dispatched f \<longrightarrow>
              f = next_future (imaging_thread_pool rm)
              \<and> next_future (imaging_thread_pool rm') = Suc f
              \<and> active_tasks rm' = active_tasks rm)
       \<and> (\<forall>C. ev = Cancelled C \<longrightarrow> C \<subseteq> active_tasks rm)"
proof (cases op)
  case (SubmitPriority priority t)
  with assms show ?thesis
    by (auto simp: manager_step_def submit_imaging_task_with_priority_def
        submit_with_priority_def futures_tracked_def Let_def split: if_splits)
next
  case (SubmitTask t)
  with assms show ?thesis
    by (auto simp: manager_step_def submit_imaging_task_def executor_submit_def
        futures_tracked_def less_Suc_eq split: if_splits)
next
  case DispatchPass
  show ?thesis
  proof (cases "shutdown_flag (imaging_thread_pool rm)")
    case True
    with assms DispatchPass show ?thesis by (auto simp: manager_step_def)
  next
    case False
    show ?thesis
    proof (cases "process_iteration (imaging_thread_pool rm)")
      case (Inl e)
      with assms DispatchPass False show ?thesis
        by (auto simp: manager_step_def take_next_def futures_tracked_def
            split: list.splits)
    next
      case (Inr x)
      obtain r pool' where x: "x = (r, pool')" by (cases x)
      from process_iteration_future[of "imaging_thread_pool rm" r pool'] Inr x
      have nf: "case r of None \<Rightarrow> next_future pool' = next_future (imaging_thread_pool rm)
                | Some f \<Rightarrow> f = next_future (imaging_thread_pool rm)
                    \<and> next_future pool' = Suc (next_future (imaging_thread_pool rm))"
        by simp
      from assms DispatchPass False Inr x nf show ?thesis
        by (cases r) (auto simp: manager_step_def futures_tracked_def less_Suc_eq)
    qed
  qed
next
  case (FutureDone f)
  with assms show ?thesis
    by (auto simp: manager_step_def future_done_def futures_tracked_def)
next
  case CancelAll
  with assms show ?thesis
    by (auto simp: manager_step_def cancel_all_tasks_def futures_tracked_def)
next
  case (Monitor memory)
  with assms show ?thesis
    by (auto simp: manager_step_def monitor_resources_def cancel_low_priority_tasks_def
        futures_tracked_def Let_def split: if_splits option.splits prod.splits)
next
  case Shutdown
  with assms show ?thesis
    by (auto simp: manager_step_def shutdown_def cancel_all_tasks_def pool_shutdown_def
        futures_tracked_def split: if_splits prod.splits)
qed

lemma run_manager_separation:
  assumes "futures_tracked rm" and "run_manager rm ops = (evs, rm')"
  shows "(\<forall>f. Dispatched f \<in> set evs \<longrightarrow> next_future (imaging_thread_pool rm) \<le> f)
       \<and> (\<forall>C x. Cancelled C \<in> set evs \<longrightarrow> x \<in> C \<longrightarrow>
              x \<in> active_tasks rm \<or> next_future (imaging_thread_pool rm) \<le> x)
       \<and> (\<forall>f C. Dispatched f \<in> set evs \<longrightarrow> Cancelled C \<in> set evs \<longrightarrow> f \<notin> C)"
  using assms
proof (induction ops arbitrary: rm evs rm')
  case Nil
  then show ?case by simp
next
  case (Cons op ops)
  obtain ev rm1 where st: "manager_step rm op = (ev, rm1)" by (cases "manager_step rm op")
  obtain evs1 rm2 where run: "run_manager rm1 ops = (evs1, rm2)" by (cases "run_manager rm1 ops")
  from Cons.prems(2) st run have evs: "evs = ev # evs1" by simp
  let ?n = "next_future (imaging_thread_pool rm)"
  let ?n1 = "next_future (imaging_thread_pool rm1)"
  from manager_step_tracked[OF Cons.prems(1) st]
  have tr1: "futures_tracked rm1" and mono: "?n \<le> ?n1"
    and act: "\<forall>x \<in> active_tasks rm1. x \<in> active_tasks rm \<or> ?n \<le> x"
    and disp: "\<forall>f. ev = Dispatched f \<longrightarrow> f = ?n \<and> ?n1 = Suc f \<and> active_tasks rm1 = active_tasks rm"
    and canc: "\<forall>C. ev = Cancelled C \<longrightarrow> C \<subseteq> active_tasks rm"
    by blast+
  from Cons.IH[OF tr1 run]
  have ih1: "\<forall>f. Dispatched f \<in> set evs1 \<longrightarrow> ?n1 \<le> f"
    and ih2: "\<forall>C x. Cancelled C \<in> set evs1 \<longrightarrow> x \<in> C \<longrightarrow> x \<in> active_tasks rm1 \<or> ?n1 \<le> x"
    and ih3: "\<forall>f C. Dispatched f \<in> set evs1 \<longrightarrow> Cancelled C \<in> set evs1 \<longrightarrow> f \<notin> C"
    by blast+
  have old: "\<forall>x \<in> active_tasks rm. x < ?n"
    using Cons.prems(1) by (simp add: futures_tracked_def)
  have g1: "\<forall>f. Dispatched f \<in> set evs \<longrightarrow> ?n \<le> f"
    unfolding evs using disp ih1 mono by auto
  have g2: "\<forall>C x. Cancelled C \<in> set evs \<longrightarrow> x \<in> C \<longrightarrow> x \<in> active_tasks rm \<or> ?n \<le> x"
  proof (intro allI impI)
    fix C x assume c: "Cancelled C \<in> set evs" and x: "x \<in> C"
    from c have "ev = Cancelled C \<or> Cancelled C \<in> set evs1" by (auto simp: evs)
    then show "x \<in> active_tasks rm \<or> ?n \<le> x"
    proof
      assume "ev = Cancelled C"
      with canc x show ?thesis by blast
    next
      assume "Cancelled C \<in> set evs1"
      with ih2 x have "x \<in> active_tasks rm1 \<or> ?n1 \<le> x" by blast
      with act mono show ?thesis by force
    qed
  qed
  have g3: "\<forall>f C. Dispatched f \<in> set evs \<longrightarrow> Cancelled C \<in> set evs \<longrightarrow> f \<notin> C"
  proof (intro allI impI)
    fix f C assume d: "Dispatched f \<in> set evs" and c: "Cancelled C \<in> set evs"
    from d have d': "ev = Dispatched f \<or> Dispatched f \<in> set evs1" by (auto simp: evs)
    from c have c': "ev = Cancelled C \<or> Cancelled C \<in> set evs1" by (auto simp: evs)
    show "f \<notin> C"
    proof
      assume fc: "f \<in> C"
      from d' show False
      proof
        assume e: "ev = Dispatched f"
        with c' have c1: "Cancelled C \<in> set evs1" by auto
        from e disp have f: "f = ?n" "?n1 = Suc f" "active_tasks rm1 = active_tasks rm" by auto
        from ih2 c1 fc have "f \<in> active_tasks rm1 \<or> ?n1 \<le> f" by blast
        with f old show False by auto
      next
        assume d1: "Dispatched f \<in> set evs1"
        from c' show False
        proof
          assume e: "ev = Cancelled C"
          with canc fc have "f \<in> active_tasks rm" by blast
          with old have "f < ?n" by blast
          moreover from ih1 d1 mono have "?n \<le> f" by force
          ultimately show False by simp
        next
          assume "Cancelled C \<in> set evs1"
          with ih3 d1 fc show False by blast
        qed
      qed
    qed
  qed
  from g1 g2 g3 show ?case by blast
qed

text \<open>
  C9. On a running manager \<open>submit_imaging_task_with_priority\<close> returns \<open>None\<close>,
  leaves \<open>active_tasks\<close> as it is and only appends the task to its priority queue.
  \<open>cancel_all_tasks\<close> cancels exactly the futures in \<open>active_tasks\<close>. In every
  history of a freshly created manager, a future that the dispatch loop created for a
  task taken from the priority queues is in no set of futures cancelled by
  \<open>cancel_all_tasks\<close>.
\<close>

theorem priority_tasks_untracked:
  "(rm_running rm \<longrightarrow>
      fst (submit_imaging_task_with_priority rm priority t) = None
      \<and> active_tasks (snd (submit_imaging_task_with_priority rm priority t)) = active_tasks rm
      \<and> imaging_thread_pool (snd (submit_imaging_task_with_priority rm priority t))
          = submit_with_priority (imaging_thread_pool rm) priority t)
   \<and> fst (cancel_all_tasks rm) = active_tasks rm
   \<and> (\<forall>f C. Dispatched f \<in> set (fst (run_manager (ResourceManager_init spawned) ops))
          \<longrightarrow> Cancelled C \<in> set (fst (run_manager (ResourceManager_init spawned) ops))
          \<longrightarrow> f \<notin> C)"
proof -
  have tr: "futures_tracked (ResourceManager_init spawned)"
    by (simp add: futures_tracked_def ResourceManager_init_def)
  obtain evs rm' where run: "run_manager (ResourceManager_init spawned) ops = (evs, rm')"
    by (cases "run_manager (ResourceManager_init spawned) ops")
  from run_manager_separation[OF tr run] run
  have "\<forall>f C. Dispatched f \<in> set (fst (run_manager (ResourceManager_init spawned) ops))
          \<longrightarrow> Cancelled C \<in> set (fst (run_manager (ResourceManager_init spawned) ops))
          \<longrightarrow> f \<notin> C" by simp
  then show ?thesis
    by (simp add: submit_imaging_task_with_priority_def cancel_all_tasks_def)
qed

theorem priority_tasks_untracked_witness:
  "fst (run_manager (ResourceManager_init []) mixed_history)
     = [Returned None, Returned (Some 0), Dispatched 1, Cancelled {0}]
   \<and> rm_running (ResourceManager_init [])
   \<and> Dispatched 1 \<in> set (fst (run_manager (ResourceManager_init []) mixed_history))
   \<and> Cancelled {0} \<in> set (fst (run_manager (ResourceManager_init []) mixed_history))
   \<and> (1::nat) \<notin> {0}"
  using priority_tasks_untracked[of "ResourceManager_init []" "''high''" "task_of ''a''" "[]" mixed_history]
  by (simp add: mixed_history_def ResourceManager_init_def manager_step_def
      submit_imaging_task_with_priority_def submit_imaging_task_def submit_with_priority_def
      PriorityThreadPoolExecutor_init_def executor_submit_def process_iteration_def
      cancel_all_tasks_def)

lemma monitor_resources_keeps_thread_pool:
  "imaging_thread_pool (snd (monitor_resources rm memory)) = imaging_thread_pool rm"
  by (simp add: monitor_resources_def cancel_low_priority_tasks_def Let_def
      split: option.splits prod.splits)

lemma monitor_resources_nothing_pending:
  "pending_tasks rm = [] \<Longrightarrow> monitor_resources rm memory = ([], rm)"
  by (simp add: monitor_resources_def cancel_low_priority_tasks_def split: option.splits)

lemma manager_step_pending:
  "pending_tasks rm = [] \<Longrightarrow> pending_tasks (snd (manager_step rm op)) = []"
  by (cases op)
     (auto simp: manager_step_def submit_imaging_task_with_priority_def submit_imaging_task_def
        future_done_def cancel_all_tasks_def monitor_resources_nothing_pending shutdown_def
        split: sum.splits prod.splits option.splits if_splits)

lemma pending_tasks_never_filled:
  "pending_tasks rm = [] \<Longrightarrow> pending_tasks (snd (run_manager rm ops)) = []"
proof (induction ops arbitrary: rm)
  case Nil
  then show ?case by simp
next
  case (Cons op ops)
  obtain ev rm1 where st: "manager_step rm op = (ev, rm1)" by (cases "manager_step rm op")
  obtain evs rm2 where run: "run_manager rm1 ops = (evs, rm2)" by (cases "run_manager rm1 ops")
  from manager_step_pending[OF Cons.prems, of op] st have "pending_tasks rm1 = []" by simp
  from Cons.IH[OF this] run have "pending_tasks rm2 = []" by simp
  with st run show ?case by simp
qed

text \<open>
  C6. The code at the failing input: a running manager with one low-priority and six
  medium-priority tasks waiting in the priority queues. At 96 percent memory usage
  \<open>monitor_resources\<close> cancels nothing and leaves every queue as it was, because
  \<open>cancel_low_priority_tasks\<close> looks only into \<open>pending_tasks\<close>, which is empty
  in every history of the manager.
\<close>

theorem monitor_resources_cancels_nothing_queued:
  "rm_running busy_manager
   \<and> low_queue (imaging_thread_pool busy_manager) = [task_of ''l1'']
   \<and> medium_queue (imaging_thread_pool busy_manager)
       = [task_of ''m1'', task_of ''m2'', task_of ''m3'', task_of ''m4'', task_of ''m5'',
          task_of ''m6'']
   \<and> monitor_resources busy_manager (Some 96) = ([], busy_manager)"
  by (simp add: busy_manager_def ResourceManager_init_def manager_step_def
      submit_imaging_task_with_priority_def submit_with_priority_def
      PriorityThreadPoolExecutor_init_def monitor_resources_def cancel_low_priority_tasks_def)

section \<open>Eviction, pinned entries and failed decodes\<close>

lemma collect_items_to_remove_take:
  "collect_items_to_remove count preserved keys c =
     take (nat (count - c)) (filter (\<lambda>k. k \<notin> set preserved) keys)"
proof (induction keys arbitrary: c)
  case Nil
  then show ?case by simp
next
  case (Cons key keys)
  show ?case
  proof (cases "c \<ge> count")
    case True
    then show ?thesis by simp
  next
    case False
    then have n: "nat (count - c) = Suc (nat (count - (c + 1)))" by linarith
    show ?thesis
    proof (cases "key \<in> set preserved")
      case True
      with False Cons.IH[of c] show ?thesis by simp
    next
      case notin: False
      with False Cons.IH[of "c + 1"] show ?thesis by (simp add: n)
    qed
  qed
qed

lemma foldl_od_delitem:
  "foldl (\<lambda>d key. od_delitem key d) d items = filter (\<lambda>e. fst e \<notin> set items) d"
proof (induction items arbitrary: d)
  case Nil
  then show ?case by simp
next
  case (Cons k items)
  have "filter (\<lambda>e. fst e \<notin> set items) (filter (\<lambda>e. fst e \<noteq> k) d)
        = filter (\<lambda>e. fst e \<notin> set (k # items)) d"
    by (induction d) auto
  with Cons.IH[of "od_delitem k d"] show ?case by (simp add: od_delitem_def)
qed

lemma remove_oldest_cache:
  "cache (snd (remove_oldest_items_from_cache self count)) =
     (if cache self = [] \<or> count \<le> 0 then cache self
      else filter (\<lambda>e. fst e \<notin> set (take (nat count)
                       (filter (\<lambda>k. k \<notin> set (preserved_paths self)) (od_keys (cache self)))))
             (cache self))"
  by (simp add: remove_oldest_items_from_cache_def Let_def collect_items_to_remove_take
      foldl_od_delitem)

lemma remove_oldest_keeps_preserved:
  assumes "k \<in> set (preserved_paths self)" and "od_contains k (cache self)"
  shows "od_contains k (cache (snd (remove_oldest_items_from_cache self count)))"
proof -
  let ?items = "take (nat count) (filter (\<lambda>k. k \<notin> set (preserved_paths self)) (od_keys (cache self)))"
  have "k \<notin> set ?items" using assms(1) in_set_takeD[of k "nat count"] by fastforce
  moreover from assms(2) obtain v where "(k, v) \<in> set (cache self)"
    by (auto simp: od_contains_def od_keys_def)
  ultimately have "(k, v) \<in> set (filter (\<lambda>e. fst e \<notin> set ?items) (cache self))" by simp
  then have "od_contains k (filter (\<lambda>e. fst e \<notin> set ?items) (cache self))"
    unfolding od_contains_def od_keys_def by (metis fst_conv image_eqI set_map)
  with assms(2) show ?thesis by (simp add: remove_oldest_cache)
qed

lemma check_cache_health_keeps_preserved:
  assumes "k \<in> set (preserved_paths self)" and "od_contains k (cache self)"
  shows "od_contains k (cache (check_cache_health self memory t))"
  using assms remove_oldest_keeps_preserved[OF assms]
  by (simp add: check_cache_health_def Let_def split: option.splits)

lemma fresh_loader_preserves_nothing: "preserved_paths (ImageLoader_init m t) = []"
  by (simp add: preserved_paths_def ImageLoader_init_def)

text \<open>
  C4. The code at the failing input: a cache at its limit of ten entries whose oldest
  entry \<open>p1\<close> is the current image, so that \<open>p1\<close> is in the set the pressure path
  preserves. \<open>_add_to_cache\<close> of an eleventh path pops \<open>p1\<close>: the insertion path
  does not look at the preserved set at all, whereas
  \<open>_remove_oldest_items_from_cache\<close> and \<open>check_cache_health\<close> keep every
  preserved key (lemmas \<open>remove_oldest_keeps_preserved\<close>,
  \<open>check_cache_health_keeps_preserved\<close>).
\<close>

theorem insertion_evicts_pinned_entry:
  "''p1'' \<in> set (preserved_paths pinned_loader)
   \<and> od_keys (cache pinned_loader)
       = [''p1'', ''p2'', ''p3'', ''p4'', ''p5'', ''p6'', ''p7'', ''p8'', ''p9'', ''p10'']
   \<and> (case add_to_cache pinned_loader ''p11'' (Some (pixmap_of 11)) of
         Inl e \<Rightarrow> False
       | Inr self' \<Rightarrow>
           od_keys (cache self')
             = [''p2'', ''p3'', ''p4'', ''p5'', ''p6'', ''p7'', ''p8'', ''p9'', ''p10'', ''p11'']
           \<and> \<not> od_contains ''p1'' (cache self'))"
  by (simp add: pinned_loader_def preserved_paths_def scenario_paths_def add_to_cache_def
      pixmap_of_def od_setitem_def od_contains_def od_keys_def od_move_to_end_def)

lemma length_filter_selected:
  assumes "distinct (map fst d)" and "distinct items" and "set items \<subseteq> set (map fst d)"
  shows "length (filter (\<lambda>e. fst e \<notin> set items) d) = length d - length items"
proof -
  let ?sel = "filter (\<lambda>e. fst e \<in> set items) d"
  have d1: "distinct (map fst ?sel)" using assms(1) by (simp add: distinct_map_filter)
  have "set (map fst ?sel) = set items" using assms(3) by auto
  then have "card (set (map fst ?sel)) = card (set items)" by simp
  then have "length (map fst ?sel) = length items"
    using d1 assms(2) by (simp only: distinct_card)
  then have sel: "length ?sel = length items" by simp
  have "length (filter (\<lambda>e. fst e \<notin> set items) d) + length ?sel = length d"
    using sum_length_filter_compl[of "\<lambda>e. fst e \<in> set items" d] by (simp add: add.commute)
  with sel show ?thesis by simp
qed

lemma remove_oldest_length:
  assumes "cache self \<noteq> []" and "distinct (od_keys (cache self))" and "0 < count"
  shows "length (cache (snd (remove_oldest_items_from_cache self count)))
           = length (cache self) - min (nat count) (unpinned_count self)"
proof -
  let ?un = "filter (\<lambda>k. k \<notin> set (preserved_paths self)) (od_keys (cache self))"
  let ?items = "take (nat count) ?un"
  have d: "distinct ?items" using assms(2) by simp
  have s: "set ?items \<subseteq> set (map fst (cache self))"
    using set_take_subset[of "nat count" ?un] by (auto simp: od_keys_def)
  have "length (filter (\<lambda>e. fst e \<notin> set ?items) (cache self))
          = length (cache self) - length ?items"
    using length_filter_selected[OF _ d s] assms(2) by (simp add: od_keys_def)
  moreover have "length ?items = min (nat count) (unpinned_count self)"
    by (simp add: unpinned_count_def min.commute)
  ultimately show ?thesis using assms(1,3) by (simp add: remove_oldest_cache)
qed

lemma removed_count:
  assumes "cache self \<noteq> []" and "distinct (od_keys (cache self))" and "0 < count"
  shows "length (cache self)
           - length (cache ((snd (remove_oldest_items_from_cache self count))\<lparr>last_cache_adjustment := t\<rparr>))
         = min (nat count) (unpinned_count self)"
proof -
  have "unpinned_count self \<le> length (cache self)"
    using length_filter_le[of "\<lambda>k. k \<notin> set (preserved_paths self)" "od_keys (cache self)"]
    by (simp add: unpinned_count_def od_keys_def)
  then show ?thesis using remove_oldest_length[OF assms] by simp
qed

text \<open>
  C7 as stated fails on the empty cache: at 96 percent with the cooldown elapsed the
  check removes nothing, while \<open>max 1 (floor (0.5 * 0))\<close> is 1.
\<close>

theorem health_check_empty_cache_counterexample:
  "cache small_loader = []
   \<and> 5 < 100 - last_cache_adjustment small_loader
   \<and> cache (check_cache_health small_loader (Some 96) 100) = []
   \<and> removed_by_health_check small_loader 96 100 = 0
   \<and> nat (max 1 (scaled_len (cache small_loader) (5 / 10))) = 1
   \<and> removed_by_health_check small_loader 96 100
       \<noteq> nat (max 1 (scaled_len (cache small_loader) (5 / 10)))"
  by (simp add: small_loader_def ImageLoader_init_def removed_by_health_check_def
      check_cache_health_def remove_oldest_items_from_cache_def scaled_len_def Let_def)

section \<open>Health checks and failed decodes\<close>

lemma scaled_len_le:
  assumes "0 \<le> f" and "f \<le> 1"
  shows "scaled_len d f \<le> int (length d)"
proof -
  have "(of_nat (length d) :: rat) * f \<le> of_nat (length d)"
    using assms mult_left_le[of f "of_nat (length d) :: rat"] by (simp add: mult.commute)
  then have "\<lfloor>(of_nat (length d) :: rat) * f\<rfloor> \<le> \<lfloor>(of_nat (length d) :: rat)\<rfloor>"
    by (rule floor_mono)
  then show ?thesis by (simp add: scaled_len_def)
qed

lemma reduction_within_cache:
  assumes "d \<noteq> []" and "0 \<le> f" and "f \<le> 1"
  shows "nat (max 1 (scaled_len d f)) \<le> length d"
proof -
  have "1 \<le> int (length d)" using assms(1) by (cases d) simp_all
  with scaled_len_le[OF assms(2,3), of d] show ?thesis by simp
qed

lemma unpinned_all: "preserved_paths self = [] \<Longrightarrow> unpinned_count self = length (cache self)"
  by (simp add: unpinned_count_def od_keys_def)

lemma check_cache_health_empty:
  "cache self = [] \<Longrightarrow> cache (check_cache_health self memory t) = []"
  by (simp add: check_cache_health_def remove_oldest_items_from_cache_def Let_def
      split: option.splits)

lemma od_keys_move_to_end:
  "od_move_to_end k d = Inr d' \<Longrightarrow> od_keys d' = filter (\<lambda>x. x \<noteq> k) (od_keys d) @ [k]"
  by (auto simp: od_move_to_end_def od_keys_def filter_map comp_def split: option.splits)

lemma distinct_evict_while_full:
  "distinct (od_keys d) \<Longrightarrow> distinct (od_keys (evict_while_full limit d))"
  by (induction d) (auto simp: od_keys_def)

lemma add_to_cache_keeps_shape:
  assumes "add_to_cache self p pixmap = Inr self'" and "distinct (od_keys (cache self))"
  shows "distinct (od_keys (cache self'))
       \<and> current_image_index self' = current_image_index self
       \<and> image_files self' = image_files self"
proof (cases "valid_pixmap pixmap")
  case False
  then have "add_to_cache self p pixmap = Inr self"
    by (cases pixmap) (simp_all add: add_to_cache_def valid_pixmap_def)
  with assms show ?thesis by simp
next
  case True
  then obtain q where q: "pixmap = Some q" "\<not> isNull q"
    by (cases pixmap) (auto simp: valid_pixmap_def)
  let ?c1 = "evict_while_full (cache_limit self) (cache self)"
  let ?c2 = "od_setitem p q ?c1"
  from assms(1) q obtain c3 where c3: "od_move_to_end p ?c2 = Inr c3" "self' = self\<lparr>cache := c3\<rparr>"
    by (auto simp: add_to_cache_def Let_def split: sum.splits)
  have d1: "distinct (od_keys ?c1)" by (rule distinct_evict_while_full[OF assms(2)])
  have d2: "distinct (od_keys ?c2)"
    using d1 by (simp add: od_keys_setitem od_contains_def)
  have "distinct (od_keys c3)"
    using d2 od_keys_move_to_end[OF c3(1)] by simp
  with c3(2) show ?thesis by simp
qed

lemma add_all_to_cache_keeps_shape:
  assumes "add_all_to_cache self ops = Inr self'" and "distinct (od_keys (cache self))"
  shows "distinct (od_keys (cache self'))
       \<and> current_image_index self' = current_image_index self
       \<and> image_files self' = image_files self"
  using assms
proof (induction ops arbitrary: self)
  case Nil
  then show ?case by simp
next
  case (Cons a ops)
  obtain p pixmap where a: "a = (p, pixmap)" by (cases a)
  from Cons.prems(1) a obtain s1 where s1: "add_to_cache self p pixmap = Inr s1"
      "add_all_to_cache s1 ops = Inr self'"
    by (auto split: sum.splits)
  from add_to_cache_keeps_shape[OF s1(1) Cons.prems(2)] Cons.IH[OF s1(2)]
  show ?case by simp
qed

lemma init_loader_shape:
  assumes "add_all_to_cache (ImageLoader_init mem now) ops = Inr self'"
  shows "distinct (od_keys (cache self')) \<and> preserved_paths self' = []"
proof -
  have "distinct (od_keys (cache (ImageLoader_init mem now)))"
    by (simp add: ImageLoader_init_def od_keys_def)
  from add_all_to_cache_keeps_shape[OF assms this]
  show ?thesis by (simp add: ImageLoader_init_def preserved_paths_def)
qed

text \<open>
  C7, as amended. For a non-empty cache of \<open>n\<close> entries the health check with its
  cooldown elapsed removes \<open>max 1 (floor (0.5 n))\<close> entries above 95 percent,
  \<open>max 1 (floor (0.3 n))\<close> entries above 90 and up to 95 percent, and
  \<open>max 1 (floor (0.15 n))\<close> entries above 85 and up to 90 percent; on an empty
  cache it removes nothing, at any memory usage and time. The cache is a dictionary
  (distinct keys) of a loader without preserved paths, and every loader that
  \<open>__init__\<close> creates and \<open>_add_to_cache\<close> fills is of this kind.
\<close>

theorem health_check_removes_share:
  assumes "distinct (od_keys (cache self))" and "preserved_paths self = []"
  shows "(cache self \<noteq> [] \<longrightarrow>
            (95 < m \<and> 5 < t - last_cache_adjustment self \<longrightarrow>
               removed_by_health_check self m t = nat (max 1 (scaled_len (cache self) (5 / 10))))
          \<and> (90 < m \<and> m \<le> 95 \<and> 10 < t - last_cache_adjustment self \<longrightarrow>
               removed_by_health_check self m t = nat (max 1 (scaled_len (cache self) (3 / 10))))
          \<and> (85 < m \<and> m \<le> 90 \<and> 30 < t - last_cache_adjustment self \<longrightarrow>
               removed_by_health_check self m t = nat (max 1 (scaled_len (cache self) (15 / 100)))))
       \<and> (cache self = [] \<longrightarrow>
            removed_by_health_check self m t = 0
            \<and> cache (check_cache_health self (Some m) t) = [])
       \<and> (\<forall>loader. add_all_to_cache (ImageLoader_init mem now) ops = Inr loader \<longrightarrow>
            distinct (od_keys (cache loader)) \<and> preserved_paths loader = [])"
proof (intro conjI impI allI)
  assume ne: "cache self \<noteq> []" and c: "95 < m \<and> 5 < t - last_cache_adjustment self"
  have "nat (max 1 (scaled_len (cache self) (5 / 10))) \<le> length (cache self)"
    by (rule reduction_within_cache[OF ne]) simp_all
  with c show "removed_by_health_check self m t = nat (max 1 (scaled_len (cache self) (5 / 10)))"
    using removed_count[OF ne assms(1), of "max 1 (scaled_len (cache self) (5 / 10))" t]
      unpinned_all[OF assms(2)]
    by (simp add: removed_by_health_check_def check_cache_health_def Let_def)
next
  assume ne: "cache self \<noteq> []" and c: "90 < m \<and> m \<le> 95 \<and> 10 < t - last_cache_adjustment self"
  have "nat (max 1 (scaled_len (cache self) (3 / 10))) \<le> length (cache self)"
    by (rule reduction_within_cache[OF ne]) simp_all
  with c show "removed_by_health_check self m t = nat (max 1 (scaled_len (cache self) (3 / 10)))"
    using removed_count[OF ne assms(1), of "max 1 (scaled_len (cache self) (3 / 10))" t]
      unpinned_all[OF assms(2)]
    by (simp add: removed_by_health_check_def check_cache_health_def Let_def)
next
  assume ne: "cache self \<noteq> []" and c: "85 < m \<and> m \<le> 90 \<and> 30 < t - last_cache_adjustment self"
  have "nat (max 1 (scaled_len (cache self) (15 / 100))) \<le> length (cache self)"
    by (rule reduction_within_cache[OF ne]) simp_all
  with c show "removed_by_health_check self m t = nat (max 1 (scaled_len (cache self) (15 / 100)))"
    using removed_count[OF ne assms(1), of "max 1 (scaled_len (cache self) (15 / 100))" t]
      unpinned_all[OF assms(2)]
    by (simp add: removed_by_health_check_def check_cache_health_def Let_def)
next
  assume e: "cache self = []"
  from check_cache_health_empty[OF e, of "Some m" t]
  show "removed_by_health_check self m t = 0" by (simp add: removed_by_health_check_def e)
  from check_cache_health_empty[OF e, of "Some m" t]
  show "cache (check_cache_health self (Some m) t) = []" .
next
  fix loader
  assume "add_all_to_cache (ImageLoader_init mem now) ops = Inr loader"
  from init_loader_shape[OF this]
  show "distinct (od_keys (cache loader))" and "preserved_paths loader = []" by simp_all
qed

theorem health_check_removes_share_witness:
  "cache three_loader \<noteq> []
   \<and> removed_by_health_check three_loader 96 100 = 1
   \<and> removed_by_health_check three_loader 91 100 = 1
   \<and> removed_by_health_check three_loader 86 100 = 1
   \<and> removed_by_health_check small_loader 96 100 = 0
   \<and> removed_by_health_check small_loader 91 100 = 0
   \<and> removed_by_health_check small_loader 86 100 = 0"
proof -
  have a: "distinct (od_keys (cache three_loader))" and b: "preserved_paths three_loader = []"
    and ne: "cache three_loader \<noteq> []"
    and c: "last_cache_adjustment three_loader = 0" and l: "length (cache three_loader) = 3"
    by (simp_all add: three_loader_def od_keys_def preserved_paths_def)
  have a': "distinct (od_keys (cache small_loader))" and b': "preserved_paths small_loader = []"
    and e': "cache small_loader = []"
    by (simp_all add: small_loader_def ImageLoader_init_def od_keys_def preserved_paths_def)
  have f: "\<lfloor>3 * (5 / 10 :: rat)\<rfloor> = 1" "\<lfloor>3 * (3 / 10 :: rat)\<rfloor> = 0" "\<lfloor>3 * (15 / 100 :: rat)\<rfloor> = 0"
    by (simp_all add: floor_eq_iff)
  from health_check_removes_share[OF a b, of 96 100]
       health_check_removes_share[OF a b, of 91 100]
       health_check_removes_share[OF a b, of 86 100]
       health_check_removes_share[OF a' b', of 96 100]
       health_check_removes_share[OF a' b', of 91 100]
       health_check_removes_share[OF a' b', of 86 100]
  show ?thesis
    by (simp add: ne c l e' scaled_len_def f)
qed

lemma worker_iteration_critical:
  "worker_iteration (Some (path, tid) # rest) outq memory rawpy =
     (if above_critical memory then (Deferred, rest @ [Some (path, tid)], outq)
      else (Answered, rest, outq @ [decode_request path tid (rawpy path)]))"
  by (simp add: worker_iteration_def above_critical_def)

lemma worker_iteration_keeps:
  assumes "Some (p, t) \<in> set inq \<or> decode_request p t (rawpy p) \<in> set outq"
    and "worker_iteration inq outq memory rawpy = (status, inq', outq')"
  shows "Some (p, t) \<in> set inq' \<or> decode_request p t (rawpy p) \<in> set outq'"
proof (cases inq)
  case Nil
  with assms show ?thesis by (simp add: worker_iteration_def)
next
  case (Cons x rest)
  show ?thesis
  proof (cases x)
    case None
    with Cons assms show ?thesis by (auto simp: worker_iteration_def)
  next
    case (Some req)
    obtain p' t' where req: "req = (p', t')" by (cases req)
    from assms Cons Some req show ?thesis
      by (auto simp: worker_iteration_critical split: if_splits)
  qed
qed

lemma worker_passes_keeps:
  assumes "Some (p, t) \<in> set inq \<or> decode_request p t (rawpy p) \<in> set outq"
    and "worker_passes readings inq outq rawpy = (inq', outq')"
  shows "Some (p, t) \<in> set inq' \<or> decode_request p t (rawpy p) \<in> set outq'"
  using assms
proof (induction readings arbitrary: inq outq)
  case Nil
  then show ?case by simp
next
  case (Cons memory later)
  obtain status i1 o1 where it: "worker_iteration inq outq memory rawpy = (status, i1, o1)"
    by (cases "worker_iteration inq outq memory rawpy")
  from worker_iteration_keeps[OF Cons.prems(1) it]
  have k: "Some (p, t) \<in> set i1 \<or> decode_request p t (rawpy p) \<in> set o1" .
  show ?case
  proof (cases "status = Exited")
    case True
    with Cons.prems(2) it k show ?thesis by simp
  next
    case False
    with Cons.prems(2) it have "worker_passes later i1 o1 rawpy = (inq', outq')" by simp
    from Cons.IH[OF k this] show ?thesis .
  qed
qed

lemma worker_passes_deferred:
  assumes "\<forall>memory \<in> set highs. above_critical memory"
  shows "worker_passes (highs @ later) [Some (path, tid)] outq rawpy
           = worker_passes later [Some (path, tid)] outq rawpy"
  using assms
  by (induction highs) (simp_all add: worker_iteration_critical)

lemma worker_passes_answer:
  assumes "\<forall>memory \<in> set highs. above_critical memory" and "\<not> above_critical ok"
  shows "worker_passes (highs @ [ok]) [Some (path, tid)] outq rawpy
           = ([], outq @ [decode_request path tid (rawpy path)])"
  using assms(2) by (simp add: worker_passes_deferred[OF assms(1)] worker_iteration_critical)

lemma decode_request_postprocessed:
  "success (decode_request path tid (Postprocessed rgb))
     = (nd_dtype rgb = ''uint8'' \<and> length (nd_shape rgb) = 3)"
  by (auto simp: decode_request_def)

lemma decode_request_format_error:
  "\<not> success (decode_request path tid (Postprocessed rgb)) \<Longrightarrow>
     \<exists>text. error (decode_request path tid (Postprocessed rgb)) = Some text \<and> text \<noteq> []"
  by (simp add: decode_request_def split: if_splits)

lemma decode_request_ids:
  "task_id (decode_request path tid outcome) = tid \<and> file_path (decode_request path tid outcome) = path"
  by (cases outcome) (simp_all add: decode_request_def)

text \<open>
  C5, as amended. When the library raises, the dictionary built by the worker has
  \<open>success = False\<close> and as \<open>error\<close> the text of the exception, whatever it is.
  A decoded array is reported as a success exactly when it is of type \<open>uint8\<close> with
  three dimensions, and otherwise as a failure with a non-empty \<open>error\<close>. The
  dictionary carries the request's task id and path. A pass that takes the request at
  a memory reading of at most 95 percent, or without a reading, puts this dictionary
  at the end of the output queue; a pass that takes it above 95 percent puts the
  request back at the end of the input queue and answers nothing. Over any sequence
  of passes a request is either still in the input queue or answered in the output
  queue, and a lone request is answered by the first pass whose reading is not above
  95 percent. The consumer leaves the loader unchanged for a result without success
  and for a null pixmap, and \<open>_add_to_cache\<close> leaves it unchanged for \<open>None\<close> and
  for a null pixmap.
\<close>

theorem failed_decode_result_and_cache:
  "\<not> success (decode_request path tid (RawpyRaises msg))
   \<and> error (decode_request path tid (RawpyRaises msg)) = Some msg
   \<and> success (decode_request path tid (Postprocessed rgb))
       = (nd_dtype rgb = ''uint8'' \<and> length (nd_shape rgb) = 3)
   \<and> (\<not> success (decode_request path tid (Postprocessed rgb)) \<longrightarrow>
        (\<exists>text. error (decode_request path tid (Postprocessed rgb)) = Some text \<and> text \<noteq> []))
   \<and> task_id (decode_request path tid outcome) = tid
   \<and> file_path (decode_request path tid outcome) = path
   \<and> worker_iteration (Some (path, tid) # rest) outq memory rawpy =
        (if above_critical memory then (Deferred, rest @ [Some (path, tid)], outq)
         else (Answered, rest, outq @ [decode_request path tid (rawpy path)]))
   \<and> (Some (path, tid) \<in> set inq \<longrightarrow>
        Some (path, tid) \<in> set (fst (worker_passes readings inq outq rawpy))
        \<or> decode_request path tid (rawpy path) \<in> set (snd (worker_passes readings inq outq rawpy)))
   \<and> ((\<forall>high \<in> set highs. above_critical high) \<and> \<not> above_critical ok \<longrightarrow>
        worker_passes (highs @ [ok]) [Some (path, tid)] outq rawpy
          = ([], outq @ [decode_request path tid (rawpy path)]))
   \<and> (\<not> success result \<longrightarrow> on_raw_decoded_for_display loader result ignored from_image = loader)
   \<and> (isNull from_image \<longrightarrow> on_raw_decoded_for_display loader result ignored from_image = loader)
   \<and> (\<not> valid_pixmap pixmap \<longrightarrow> add_to_cache loader p pixmap = Inr loader)"
proof -
  have 1: "\<not> success (decode_request path tid (RawpyRaises msg))
           \<and> error (decode_request path tid (RawpyRaises msg)) = Some msg"
    by (simp add: decode_request_def)
  have 2: "success (decode_request path tid (Postprocessed rgb))
       = (nd_dtype rgb = ''uint8'' \<and> length (nd_shape rgb) = 3)"
    by (rule decode_request_postprocessed)
  have 3: "\<not> success (decode_request path tid (Postprocessed rgb)) \<longrightarrow>
        (\<exists>text. error (decode_request path tid (Postprocessed rgb)) = Some text \<and> text \<noteq> [])"
    using decode_request_format_error[of path tid rgb] by blast
  have 4: "task_id (decode_request path tid outcome) = tid
           \<and> file_path (decode_request path tid outcome) = path"
    by (rule decode_request_ids)
  have 5: "worker_iteration (Some (path, tid) # rest) outq memory rawpy =
        (if above_critical memory then (Deferred, rest @ [Some (path, tid)], outq)
         else (Answered, rest, outq @ [decode_request path tid (rawpy path)]))"
    by (rule worker_iteration_critical)
  have 6: "Some (path, tid) \<in> set inq \<longrightarrow>
        Some (path, tid) \<in> set (fst (worker_passes readings inq outq rawpy))
        \<or> decode_request path tid (rawpy path) \<in> set (snd (worker_passes readings inq outq rawpy))"
  proof
    assume a: "Some (path, tid) \<in> set inq"
    obtain i o' where w: "worker_passes readings inq outq rawpy = (i, o')"
      by (cases "worker_passes readings inq outq rawpy")
    from worker_passes_keeps[OF _ w, of path tid] a w
    show "Some (path, tid) \<in> set (fst (worker_passes readings inq outq rawpy))
        \<or> decode_request path tid (rawpy path) \<in> set (snd (worker_passes readings inq outq rawpy))"
      by simp
  qed
  have 7: "(\<forall>high \<in> set highs. above_critical high) \<and> \<not> above_critical ok \<longrightarrow>
        worker_passes (highs @ [ok]) [Some (path, tid)] outq rawpy
          = ([], outq @ [decode_request path tid (rawpy path)])"
    using worker_passes_answer[of highs ok path tid outq rawpy] by blast
  have 8: "\<not> success result \<longrightarrow> on_raw_decoded_for_display loader result ignored from_image = loader"
    by (simp add: on_raw_decoded_for_display_def)
  have 9: "isNull from_image \<longrightarrow> on_raw_decoded_for_display loader result ignored from_image = loader"
    by (simp add: on_raw_decoded_for_display_def split: option.splits)
  have 10: "\<not> valid_pixmap pixmap \<longrightarrow> add_to_cache loader p pixmap = Inr loader"
    by (cases pixmap) (simp_all add: add_to_cache_def valid_pixmap_def)
  from 1 2 3 4 5 6 7 8 9 10 show ?thesis by blast
qed

theorem failed_decode_result_and_cache_witness:
  "worker_passes [Some 96, Some 97, Some 50] [Some (''a.cr2'', 0)] [] corrupt_file
     = ([], [failure_result 0 ''a.cr2''])
   \<and> above_critical (Some 96) \<and> above_critical (Some 97) \<and> \<not> above_critical (Some 50)
   \<and> \<not> success (failure_result 0 ''a.cr2'')
   \<and> error (failure_result 0 ''a.cr2'') = Some ''data corrupted''
   \<and> \<not> success (decode_request ''b.nef'' 1 (Postprocessed unsupported_array))
   \<and> error (decode_request ''b.nef'' 1 (Postprocessed unsupported_array))
       = Some ''Unexpected data format: uint16, shape=(2, 3, 3)''
   \<and> on_raw_decoded_for_display small_loader (failure_result 0 ''a.cr2'') False (pixmap_of 1)
       = small_loader
   \<and> add_to_cache small_loader ''a.cr2'' (Some null_pixmap) = Inr small_loader"
proof -
  have t: "str_tuple [2, 3, 3] = ''(2, 3, 3)''" by code_simp
  have h: "(\<forall>high \<in> set [Some 96, Some 97]. above_critical high) \<and> \<not> above_critical (Some 50)"
    by (simp add: above_critical_def)
  from failed_decode_result_and_cache[of "''a.cr2''" 0 "''data corrupted''" unsupported_array
      "RawpyRaises ''data corrupted''" "[]" "[]" "Some 50" corrupt_file "[]" "[]"
      "[Some 96, Some 97]" "Some 50" "failure_result 0 ''a.cr2''" small_loader False
      "pixmap_of 1" "Some null_pixmap" "''a.cr2''"] h
  show ?thesis
    by (simp add: failure_result_def decode_request_def unsupported_array_def t
        null_pixmap_def valid_pixmap_def corrupt_file_def above_critical_def)
qed

text \<open>
  C5 as stated fails in two ways: an exception without text gives a failure result
  whose \<open>error\<close> is the empty string, and at 96 percent memory usage a pass, or
  three passes in a row, leave the request of a corrupt file in the input queue and
  the output queue empty.
\<close>

theorem failed_decode_counterexample:
  "\<not> success (decode_request ''a.cr2'' 0 (RawpyRaises []))
   \<and> error (decode_request ''a.cr2'' 0 (RawpyRaises [])) = Some []
   \<and> worker_iteration [Some (''a.cr2'', 0)] [] (Some 96) corrupt_file
       = (Deferred, [Some (''a.cr2'', 0)], [])
   \<and> worker_passes [Some 96, Some 96, Some 96] [Some (''a.cr2'', 0)] [] corrupt_file
       = ([Some (''a.cr2'', 0)], [])"
  by (simp add: decode_request_def worker_iteration_def)

end
